theory Spec2Isabelle
  imports Main "HOL-Library.Char_ord"
begin

section \<open>Wide characters and C strings\<close>

text \<open>
  The tokenizer works on a NUL-terminated \<^verbatim>\<open>const wchar_t *\<close>. A buffer is modelled as
  the list of its characters before the terminator, a pointer into it as an index
  (\<^verbatim>\<open>this->buff - this->start\<close>), and a read through a pointer as \<open>at\<close>: the read
  at index \<open>length s\<close> yields the terminating NUL. Wide characters are modelled by
  \<^typ>\<open>char\<close>; the classification functions of \<^verbatim>\<open><wctype.h>\<close> are those of the "C" locale.
\<close>

type_synonym wchar = char
type_synonym wcstring = string

abbreviation NUL :: wchar where "NUL \<equiv> CHR 0x00"
abbreviation TAB :: wchar where "TAB \<equiv> CHR 0x09"
abbreviation NL :: wchar where "NL \<equiv> CHR 0x0A"
abbreviation CR :: wchar where "CR \<equiv> CHR 0x0D"
abbreviation BACKSLASH :: wchar where "BACKSLASH \<equiv> CHR 0x5C"
abbreviation SQUOTE :: wchar where "SQUOTE \<equiv> CHR 0x27"
abbreviation DQUOTE :: wchar where "DQUOTE \<equiv> CHR 0x22"

definition at :: "wcstring \<Rightarrow> nat \<Rightarrow> wchar" where
  "at s i = (if i < length s then s ! i else NUL)"

text \<open>\<^verbatim>\<open>wcslen(p)\<close>: the distance from the pointer to the first NUL.\<close>

definition wcslen :: "wcstring \<Rightarrow> nat \<Rightarrow> nat" where
  "wcslen s i = length (takeWhile (\<lambda>c. c \<noteq> NUL) (drop i s))"

text \<open>The characters \<^verbatim>\<open>[first, first + len)\<close> of the buffer, as \<^verbatim>\<open>assign(first, len)\<close> copies them.\<close>

definition slice :: "wcstring \<Rightarrow> nat \<Rightarrow> nat \<Rightarrow> wcstring" where
  "slice s first len = take len (drop first s)"

definition iswdigit :: "wchar \<Rightarrow> bool" where
  "iswdigit c = (CHR ''0'' \<le> c \<and> c \<le> CHR ''9'')"

definition iswspace :: "wchar \<Rightarrow> bool" where
  "iswspace c = (c = CHR '' '' \<or> (TAB \<le> c \<and> c \<le> CR))"

definition iswblank :: "wchar \<Rightarrow> bool" where
  "iswblank c = (c = CHR '' '' \<or> c = TAB)"

definition iswalpha :: "wchar \<Rightarrow> bool" where
  "iswalpha c = ((CHR ''a'' \<le> c \<and> c \<le> CHR ''z'') \<or> (CHR ''A'' \<le> c \<and> c \<le> CHR ''Z''))"

definition iswalnum :: "wchar \<Rightarrow> bool" where
  "iswalnum c = (iswalpha c \<or> iswdigit c)"

definition iswgraph :: "wchar \<Rightarrow> bool" where
  "iswgraph c = (CHR 0x21 \<le> c \<and> c \<le> CHR 0x7E)"

text \<open>\<^verbatim>\<open>wcschr(str, c) != NULL\<close>: the terminator of \<open>str\<close> counts as a member.\<close>

definition wcschr :: "wcstring \<Rightarrow> wchar \<Rightarrow> bool" where
  "wcschr str c = (c \<in> set str \<or> c = NUL)"

section \<open>Character classifiers of the tokenizer\<close>

definition tok_is_string_character :: "wchar \<Rightarrow> bool \<Rightarrow> bool" where
  "tok_is_string_character c is_first =
     (if c = NUL \<or> c = CHR '' '' \<or> c = NL \<or> c = CHR ''|'' \<or> c = TAB \<or> c = CHR '';''
         \<or> c = CR \<or> c = CHR ''<'' \<or> c = CHR ''>'' \<or> c = CHR ''&'' then False
      else if c = CHR ''^'' then \<not> is_first
      else True)"

definition myal :: "wchar \<Rightarrow> bool" where
  "myal c = ((CHR ''a'' \<le> c \<and> c \<le> CHR ''z'') \<or> (CHR ''A'' \<le> c \<and> c \<le> CHR ''Z''))"

definition iswspace_not_nl :: "wchar \<Rightarrow> bool" where
  "iswspace_not_nl c =
     (if c = CHR '' '' \<or> c = TAB \<or> c = CR then True
      else if c = NL then False
      else iswspace c)"

section \<open>Word-motion state machines\<close>

datatype move_word_style_t =
  move_word_style_punctuation | move_word_style_path_components | move_word_style_whitespace

record move_word_state_machine_t =
  state :: int
  style :: move_word_style_t

definition move_word_state_machine_init :: "move_word_style_t \<Rightarrow> move_word_state_machine_t" where
  "move_word_state_machine_init syl = \<lparr>state = 0, style = syl\<rparr>"

definition reset :: "move_word_state_machine_t \<Rightarrow> move_word_state_machine_t" where
  "reset m = m\<lparr>state := 0\<rparr>"

text \<open>
  The \<^verbatim>\<open>while (state != s_end && !consumed)\<close> loop of each automaton. The states are the
  values of the function's local enum: \<open>s_always_one = 0\<close>, \<open>s_whitespace = 1\<close>,
  \<open>s_alphanumeric = 2\<close>, \<open>s_end = 3\<close>. On a state outside the enum the \<^verbatim>\<open>default\<close>
  branch changes nothing and the loop does not end: the result is \<open>None\<close>.
\<close>

partial_function (option) consume_char_punctuation_loop ::
  "wchar \<Rightarrow> int \<Rightarrow> bool \<Rightarrow> (bool \<times> int) option" where
  "consume_char_punctuation_loop c st consumed =
     (if st \<noteq> 3 \<and> \<not> consumed then
        (if st = 0 then consume_char_punctuation_loop c 1 True
         else if st = 1 then
           (if iswspace c then consume_char_punctuation_loop c st True
            else consume_char_punctuation_loop c 2 consumed)
         else if st = 2 then
           (if iswalnum c then consume_char_punctuation_loop c st True
            else consume_char_punctuation_loop c 3 consumed)
         else consume_char_punctuation_loop c st consumed)
      else Some (consumed, st))"

definition consume_char_punctuation ::
  "move_word_state_machine_t \<Rightarrow> wchar \<Rightarrow> (bool \<times> move_word_state_machine_t) option" where
  "consume_char_punctuation m c =
     (case consume_char_punctuation_loop c (state m) False of
        None \<Rightarrow> None
      | Some (consumed, st) \<Rightarrow> Some (consumed, m\<lparr>state := st\<rparr>))"

definition is_path_component_character :: "wchar \<Rightarrow> bool" where
  "is_path_component_character c =
     (tok_is_string_character c True \<and> \<not> wcschr (''/={,}'' @ [SQUOTE, DQUOTE]) c)"

text \<open>
  Path components: \<open>s_initial_punctuation = 0\<close>, \<open>s_whitespace = 1\<close>, \<open>s_separator = 2\<close>,
  \<open>s_slash = 3\<close>, \<open>s_path_component_characters = 4\<close>, \<open>s_end = 5\<close>.
\<close>

partial_function (option) consume_char_path_components_loop ::
  "wchar \<Rightarrow> int \<Rightarrow> bool \<Rightarrow> (bool \<times> int) option" where
  "consume_char_path_components_loop c st consumed =
     (if st \<noteq> 5 \<and> \<not> consumed then
        (if st = 0 then
           consume_char_path_components_loop c 1
             (if \<not> is_path_component_character c then True else consumed)
         else if st = 1 then
           (if iswspace c then consume_char_path_components_loop c st True
            else if c = CHR ''/'' \<or> is_path_component_character c then
              consume_char_path_components_loop c 3 consumed
            else consume_char_path_components_loop c 2 consumed)
         else if st = 2 then
           (if \<not> iswspace c \<and> \<not> is_path_component_character c then
              consume_char_path_components_loop c st True
            else consume_char_path_components_loop c 5 consumed)
         else if st = 3 then
           (if c = CHR ''/'' then consume_char_path_components_loop c st True
            else consume_char_path_components_loop c 4 consumed)
         else if st = 4 then
           (if is_path_component_character c then consume_char_path_components_loop c st True
            else consume_char_path_components_loop c 5 consumed)
         else consume_char_path_components_loop c st consumed)
      else Some (consumed, st))"

definition consume_char_path_components ::
  "move_word_state_machine_t \<Rightarrow> wchar \<Rightarrow> (bool \<times> move_word_state_machine_t) option" where
  "consume_char_path_components m c =
     (case consume_char_path_components_loop c (state m) False of
        None \<Rightarrow> None
      | Some (consumed, st) \<Rightarrow> Some (consumed, m\<lparr>state := st\<rparr>))"

text \<open>Whitespace: \<open>s_always_one = 0\<close>, \<open>s_blank = 1\<close>, \<open>s_graph = 2\<close>, \<open>s_end = 3\<close>.\<close>

partial_function (option) consume_char_whitespace_loop ::
  "wchar \<Rightarrow> int \<Rightarrow> bool \<Rightarrow> (bool \<times> int) option" where
  "consume_char_whitespace_loop c st consumed =
     (if st \<noteq> 3 \<and> \<not> consumed then
        (if st = 0 then consume_char_whitespace_loop c 1 True
         else if st = 1 then
           (if iswblank c then consume_char_whitespace_loop c st True
            else consume_char_whitespace_loop c 2 consumed)
         else if st = 2 then
           (if iswgraph c then consume_char_whitespace_loop c st True
            else consume_char_whitespace_loop c 3 consumed)
         else consume_char_whitespace_loop c st consumed)
      else Some (consumed, st))"

definition consume_char_whitespace ::
  "move_word_state_machine_t \<Rightarrow> wchar \<Rightarrow> (bool \<times> move_word_state_machine_t) option" where
  "consume_char_whitespace m c =
     (case consume_char_whitespace_loop c (state m) False of
        None \<Rightarrow> None
      | Some (consumed, st) \<Rightarrow> Some (consumed, m\<lparr>state := st\<rparr>))"

definition consume_char ::
  "move_word_state_machine_t \<Rightarrow> wchar \<Rightarrow> (bool \<times> move_word_state_machine_t) option" where
  "consume_char m c =
     (case style m of
        move_word_style_punctuation \<Rightarrow> consume_char_punctuation m c
      | move_word_style_path_components \<Rightarrow> consume_char_path_components m c
      | move_word_style_whitespace \<Rightarrow> consume_char_whitespace m c)"

text \<open>
  A caller's sequence of \<^verbatim>\<open>consume_char\<close> calls on one machine, with no \<^verbatim>\<open>reset\<close> in
  between: for each call, the value it returned and the state it left.
\<close>

fun consume_chars ::
  "move_word_state_machine_t \<Rightarrow> wchar list \<Rightarrow> (bool \<times> int) list option" where
  "consume_chars m [] = Some []"
| "consume_chars m (c # cs) =
     (case consume_char m c of
        None \<Rightarrow> None
      | Some (consumed, m') \<Rightarrow>
          (case consume_chars m' cs of
             None \<Rightarrow> None
           | Some rs \<Rightarrow> Some ((consumed, state m') # rs)))"

text \<open>The final state of the automaton of a style, and the states of its enum.\<close>

definition s_end :: "move_word_style_t \<Rightarrow> int" where
  "s_end syl = (case syl of move_word_style_path_components \<Rightarrow> 5 | _ \<Rightarrow> 3)"

definition state_in_enum :: "move_word_state_machine_t \<Rightarrow> bool" where
  "state_in_enum m = (0 \<le> state m \<and> state m \<le> s_end (style m))"

section \<open>Tokens and the tokenizer state\<close>

text \<open>
  Modelled from the spec: the enums \<^verbatim>\<open>token_type\<close> and \<^verbatim>\<open>tokenizer_error\<close>, the flags
  of \<^verbatim>\<open>tok_flags_t\<close>, \<^verbatim>\<open>struct tok_t\<close> and the fields of \<^verbatim>\<open>tokenizer_t\<close> with their
  initial values are declared in \<^verbatim>\<open>tokenizer.h\<close>, which is not among the sources. The
  constructors are the enumerators that \<^verbatim>\<open>tokenizer.cpp\<close> uses, the fields are the members
  it reads and writes. A fresh tokenizer has \<open>has_next\<close> set, no last token, and no
  error; \<open>global_error_offset\<close> is read only after \<^verbatim>\<open>call_error\<close> has set it, so its
  initial value does not matter. A flag set is the list of the flags that are set in it.
\<close>

datatype token_type =
  TOK_NONE | TOK_ERROR | TOK_STRING | TOK_PIPE | TOK_END
  | TOK_REDIRECT_OUT | TOK_REDIRECT_APPEND | TOK_REDIRECT_IN | TOK_REDIRECT_FD
  | TOK_REDIRECT_NOCLOB | TOK_BACKGROUND | TOK_COMMENT

datatype tokenizer_error =
  TOK_ERROR_NONE | TOK_UNTERMINATED_QUOTE | TOK_UNTERMINATED_SUBSHELL
  | TOK_UNTERMINATED_SLICE | TOK_UNTERMINATED_ESCAPE | TOK_INVALID_REDIRECT | TOK_INVALID_PIPE

datatype tok_flag =
  TOK_ACCEPT_UNFINISHED | TOK_SHOW_COMMENTS | TOK_SQUASH_ERRORS | TOK_SHOW_BLANK_LINES

type_synonym tok_flags_t = "tok_flag list"

record tok_t =
  tok_text :: wcstring
  tok_type :: token_type
  tok_error :: tokenizer_error
  tok_offset :: nat
  tok_length :: nat
  tok_error_offset :: nat

record tokenizer_t =
  start :: wcstring
  buff :: nat
  last_token :: wcstring
  last_type :: token_type
  last_pos :: nat
  has_next :: bool
  accept_unfinished :: bool
  show_comments :: bool
  show_blank_lines :: bool
  error :: tokenizer_error
  global_error_offset :: nat
  squash_errors :: bool
  continue_line_after_comment :: bool

text \<open>
  A failed \<^verbatim>\<open>assert\<close> or a \<^verbatim>\<open>DIE\<close> ends the program: the call returns no value.
  The error strings are those of the macros, before the translation that \<^verbatim>\<open>_(...)\<close> looks
  up.
\<close>

datatype failure = AssertionFailed | Died

definition QUOTE_ERROR :: wcstring where
  "QUOTE_ERROR = ''Unexpected end of string, quotes are not balanced''"

definition PARAN_ERROR :: wcstring where
  "PARAN_ERROR = ''Unexpected end of string, parenthesis do not match''"

definition SQUARE_BRACKET_ERROR :: wcstring where
  "SQUARE_BRACKET_ERROR = ''Unexpected end of string, square brackets do not match''"

definition UNTERMINATED_ESCAPE_ERROR :: wcstring where
  "UNTERMINATED_ESCAPE_ERROR = ''Unexpected end of string, incomplete escape sequence''"

definition REDIRECT_ERROR :: wcstring where
  "REDIRECT_ERROR = ''Invalid input/output redirection''"

definition PIPE_ERROR :: wcstring where
  "PIPE_ERROR = ''Cannot use stdin (fd 0) as pipe output''"

definition INT_MAX :: int where
  "INT_MAX = 2147483647"

definition STDIN_FILENO :: int where "STDIN_FILENO = 0"
definition STDOUT_FILENO :: int where "STDOUT_FILENO = 1"
definition STDERR_FILENO :: int where "STDERR_FILENO = 2"

text \<open>
  The \<^verbatim>\<open>switch\<close> of \<^verbatim>\<open>call_error\<close> over the error type; its \<^verbatim>\<open>default\<close> branch is
  \<^verbatim>\<open>assert(0)\<close>.
\<close>

fun error_message :: "tokenizer_error \<Rightarrow> failure + wcstring" where
  "error_message TOK_UNTERMINATED_QUOTE = Inr QUOTE_ERROR"
| "error_message TOK_UNTERMINATED_SUBSHELL = Inr PARAN_ERROR"
| "error_message TOK_UNTERMINATED_SLICE = Inr SQUARE_BRACKET_ERROR"
| "error_message TOK_UNTERMINATED_ESCAPE = Inr UNTERMINATED_ESCAPE_ERROR"
| "error_message TOK_INVALID_REDIRECT = Inr REDIRECT_ERROR"
| "error_message TOK_INVALID_PIPE = Inr PIPE_ERROR"
| "error_message TOK_ERROR_NONE = Inl AssertionFailed"

text \<open>
  \<^verbatim>\<open>where\<close> is a pointer into the buffer, never null: \<^verbatim>\<open>where - this->start\<close> is its index.
\<close>

definition call_error :: "tokenizer_t \<Rightarrow> tokenizer_error \<Rightarrow> nat \<Rightarrow> failure + tokenizer_t" where
  "call_error t error_type whr =
     (if error_type = TOK_ERROR_NONE then Inl AssertionFailed
      else
        let t = t\<lparr>last_type := TOK_ERROR, error := error_type, has_next := False,
                   global_error_offset := whr\<rparr>
        in if squash_errors t then Inr (t\<lparr>last_token := []\<rparr>)
           else (case error_message error_type of
                   Inl e \<Rightarrow> Inl e
                 | Inr msg \<Rightarrow> Inr (t\<lparr>last_token := msg\<rparr>)))"

definition tokenizer_init :: "wcstring \<Rightarrow> tok_flags_t \<Rightarrow> tokenizer_t" where
  "tokenizer_init s flags =
     \<lparr>start = s, buff = 0, last_token = [], last_type = TOK_NONE, last_pos = 0,
      has_next = True,
      accept_unfinished = (TOK_ACCEPT_UNFINISHED \<in> set flags),
      show_comments = (TOK_SHOW_COMMENTS \<in> set flags),
      show_blank_lines = (TOK_SHOW_BLANK_LINES \<in> set flags),
      error = TOK_ERROR_NONE, global_error_offset = 0,
      squash_errors = (TOK_SQUASH_ERRORS \<in> set flags),
      continue_line_after_comment = False\<rparr>"

section \<open>The quote scanner\<close>

text \<open>
  Modelled from the spec: \<^verbatim>\<open>quote_end\<close> is declared in \<^verbatim>\<open>common.h\<close> and its body is not
  among the sources. Given a cursor at a quote character it scans forward for the matching
  closer; a backslash escapes the one character after it; the result is the position of
  the closing quote, or \<open>None\<close> when the buffer ends first.
\<close>

function quote_end_loop :: "wcstring \<Rightarrow> wchar \<Rightarrow> nat \<Rightarrow> nat option" where
  "quote_end_loop s c pos =
     (let pos = pos + 1 in
      if at s pos = NUL then None
      else if at s pos = BACKSLASH then
        (let pos = pos + 1 in
         if at s pos = NUL then None else quote_end_loop s c pos)
      else if at s pos = c then Some pos
      else quote_end_loop s c pos)"
  by pat_completeness auto
termination
  by (relation "measure (\<lambda>(s, c, pos). length s - pos)") (auto simp: at_def split: if_splits)

definition quote_end :: "wcstring \<Rightarrow> nat \<Rightarrow> nat option" where
  "quote_end s pos = quote_end_loop s (at s pos) pos"

section \<open>The string scanner\<close>

datatype tok_mode_t =
  mode_regular_text | mode_subshell | mode_array_brackets | mode_array_brackets_and_subshell

text \<open>
  The local variables of \<^verbatim>\<open>read_string\<close>. The array \<^verbatim>\<open>paran_offsets\<close> has
  \<open>paran_offsets_max = 96\<close> entries; the source leaves them uninitialised and reads only
  entries it has written, here they start as 0.
\<close>

record read_string_locals =
  do_loop :: bool
  paran_count :: nat
  paran_offsets :: "nat list"
  offset_of_bracket :: nat
  is_first :: bool
  mode :: tok_mode_t

definition paran_offsets_max :: nat where
  "paran_offsets_max = 96"

text \<open>
  How control leaves a piece of the loop body: \<open>Returned\<close> is the \<^verbatim>\<open>return\<close> after
  \<^verbatim>\<open>call_error\<close>, \<open>Broke\<close> is falling out of the \<^verbatim>\<open>switch\<close> (or, for the loop, its
  \<^verbatim>\<open>break\<close>) with the tokenizer and the locals as they then are.
\<close>

datatype loop_exit = Returned tokenizer_t | Broke tokenizer_t read_string_locals

text \<open>
  The quote case, which the source has twice with the same text: in \<open>mode_regular_text\<close>
  and in the case shared by \<open>mode_subshell\<close> and \<open>mode_array_brackets_and_subshell\<close>.
\<close>

definition read_string_quote :: "tokenizer_t \<Rightarrow> read_string_locals \<Rightarrow> failure + loop_exit" where
  "read_string_quote t l =
     (case quote_end (start t) (buff t) of
        Some end_pos \<Rightarrow> Inr (Broke (t\<lparr>buff := end_pos\<rparr>) l)
      | None \<Rightarrow>
          (let error_loc = buff t;
               t = t\<lparr>buff := buff t + wcslen (start t) (buff t)\<rparr>
           in if \<not> accept_unfinished t then
                (case call_error t TOK_UNTERMINATED_QUOTE error_loc of
                   Inl e \<Rightarrow> Inl e
                 | Inr t' \<Rightarrow> Inr (Returned t'))
              else Inr (Broke t (l\<lparr>do_loop := False\<rparr>))))"

text \<open>The \<^verbatim>\<open>switch (mode)\<close> of the loop body.\<close>

definition read_string_switch ::
  "tokenizer_t \<Rightarrow> nat \<Rightarrow> read_string_locals \<Rightarrow> failure + loop_exit" where
  "read_string_switch t buff_start l =
     (let c = at (start t) (buff t) in
      case mode l of
        mode_regular_text \<Rightarrow>
          if c = CHR ''('' then
            Inr (Broke t (l\<lparr>paran_count := 1, paran_offsets := (paran_offsets l)[0 := buff t],
                            mode := mode_subshell\<rparr>))
          else if c = CHR ''['' then
            (if buff t \<noteq> buff_start then
               Inr (Broke t (l\<lparr>mode := mode_array_brackets, offset_of_bracket := buff t\<rparr>))
             else Inr (Broke t l))
          else if c = SQUOTE \<or> c = DQUOTE then read_string_quote t l
          else if \<not> tok_is_string_character c (is_first l) then
            Inr (Broke t (l\<lparr>do_loop := False\<rparr>))
          else Inr (Broke t l)
      | mode_array_brackets \<Rightarrow>
          if c = CHR ''('' then
            Inr (Broke t (l\<lparr>paran_count := 1, paran_offsets := (paran_offsets l)[0 := buff t],
                            mode := mode_array_brackets_and_subshell\<rparr>))
          else if c = CHR '']'' then Inr (Broke t (l\<lparr>mode := mode_regular_text\<rparr>))
          else if c = NUL then Inr (Broke t (l\<lparr>do_loop := False\<rparr>))
          else Inr (Broke t l)
      | _ \<Rightarrow>
          if c = SQUOTE \<or> c = DQUOTE then read_string_quote t l
          else if c = CHR ''('' then
            Inr (Broke t
              (l\<lparr>paran_offsets :=
                    (if paran_count l < paran_offsets_max
                     then (paran_offsets l)[paran_count l := buff t] else paran_offsets l),
                  paran_count := paran_count l + 1\<rparr>))
          else if c = CHR '')'' then
            (if \<not> paran_count l > 0 then Inl AssertionFailed
             else
               let l = l\<lparr>paran_count := paran_count l - 1\<rparr>
               in if paran_count l = 0 then
                    Inr (Broke t
                      (l\<lparr>mode := (if mode l = mode_array_brackets_and_subshell
                                    then mode_array_brackets else mode_regular_text)\<rparr>))
                  else Inr (Broke t l))
          else if c = NUL then Inr (Broke t (l\<lparr>do_loop := False\<rparr>))
          else Inr (Broke t l))"


text \<open>Facts about the loop body that the termination of the loop rests on.\<close>

declare quote_end_loop.simps [simp del]

lemma at_not_NUL_less: "at s i \<noteq> NUL \<Longrightarrow> i < length s"
  by (simp add: at_def split: if_splits)

lemma at_eq_cases: "at s i = c \<Longrightarrow> i < length s \<or> c = NUL"
  by (auto simp: at_def split: if_splits)

lemma myal_at_less: "myal (at s i) \<Longrightarrow> i < length s"
  by (rule at_not_NUL_less) (auto simp: myal_def)

lemma quote_end_loop_bounds:
  "quote_end_loop s c pos = Some e \<Longrightarrow> pos < e \<and> e < length s \<and> at s e = c"
proof (induction s c pos arbitrary: e rule: quote_end_loop.induct)
  case (1 s c pos)
  show ?case
  proof (cases "at s (pos + 1) = BACKSLASH")
    case True
    with "1.prems" have ne: "at s (pos + 1 + 1) \<noteq> NUL"
      and rec: "quote_end_loop s c (pos + 1 + 1) = Some e"
      by (subst (asm) quote_end_loop.simps, simp add: Let_def split: if_splits)+
    from True have "at s (pos + 1) \<noteq> NUL" by simp
    from "1.IH"(1) [OF refl this True refl ne rec] show ?thesis by simp
  next
    case False
    show ?thesis
    proof (cases "at s (pos + 1) = c")
      case True
      with "1.prems" False have "at s (pos + 1) \<noteq> NUL" "e = pos + 1"
        by (subst (asm) quote_end_loop.simps, simp add: Let_def split: if_splits)+
      with True show ?thesis by (auto dest: at_not_NUL_less)
    next
      case nc: False
      with "1.prems" False have ne: "at s (pos + 1) \<noteq> NUL"
        and rec: "quote_end_loop s c (pos + 1) = Some e"
        by (subst (asm) quote_end_loop.simps, simp add: Let_def split: if_splits)+
      from "1.IH"(2) [OF refl ne False nc rec] show ?thesis by simp
    qed
  qed
qed

lemma call_error_fields:
  "call_error t e w = Inr t' \<Longrightarrow>
     start t' = start t \<and> buff t' = buff t \<and> last_pos t' = last_pos t
     \<and> last_type t' = TOK_ERROR \<and> error t' = e \<and> \<not> has_next t'
     \<and> global_error_offset t' = w \<and> squash_errors t' = squash_errors t
     \<and> accept_unfinished t' = accept_unfinished t \<and> show_comments t' = show_comments t
     \<and> show_blank_lines t' = show_blank_lines t
     \<and> continue_line_after_comment t' = continue_line_after_comment t"
  by (auto simp: call_error_def Let_def split: if_splits sum.splits)

lemma read_string_quote_Broke:
  "read_string_quote t l = Inr (Broke t' l') \<Longrightarrow>
     start t' = start t \<and> buff t \<le> buff t' \<and> (do_loop l' \<longrightarrow> buff t' < length (start t))"
  by (auto simp: read_string_quote_def quote_end_def Let_def
      split: option.splits if_splits sum.splits dest: quote_end_loop_bounds)

lemma read_string_switch_Broke:
  "read_string_switch t buff_start l = Inr (Broke t' l') \<Longrightarrow> do_loop l' \<Longrightarrow>
     start t' = start t \<and> buff t \<le> buff t' \<and> buff t' < length (start t)"
  by (auto simp: read_string_switch_def Let_def tok_is_string_character_def
      split: tok_mode_t.splits if_splits
      dest: read_string_quote_Broke at_not_NUL_less at_eq_cases)

text \<open>The \<^verbatim>\<open>while (1)\<close> loop of \<^verbatim>\<open>read_string\<close>.\<close>

function read_string_loop ::
  "tokenizer_t \<Rightarrow> nat \<Rightarrow> read_string_locals \<Rightarrow> failure + loop_exit" where
  "read_string_loop t buff_start l =
     (if \<not> myal (at (start t) (buff t)) then
        if at (start t) (buff t) = BACKSLASH then
          (let error_location = buff t;
               t = t\<lparr>buff := buff t + 1\<rparr>
           in if at (start t) (buff t) = NUL then
                if \<not> accept_unfinished t then
                  (case call_error t TOK_UNTERMINATED_ESCAPE error_location of
                     Inl e \<Rightarrow> Inl e
                   | Inr t' \<Rightarrow> Inr (Returned t'))
                else
                  (let t = t\<lparr>buff := buff t - 1\<rparr>;
                       l = l\<lparr>do_loop := False\<rparr>
                   in read_string_loop (t\<lparr>buff := buff t + 1\<rparr>) buff_start l)
              else read_string_loop (t\<lparr>buff := buff t + 1\<rparr>) buff_start l)
        else
          (case read_string_switch t buff_start l of
             Inl e \<Rightarrow> Inl e
           | Inr (Returned t') \<Rightarrow> Inr (Returned t')
           | Inr (Broke t' l') \<Rightarrow>
               if \<not> do_loop l' then Inr (Broke t' l')
               else read_string_loop (t'\<lparr>buff := buff t' + 1\<rparr>) buff_start (l'\<lparr>is_first := False\<rparr>))
      else if \<not> do_loop l then Inr (Broke t l)
      else read_string_loop (t\<lparr>buff := buff t + 1\<rparr>) buff_start (l\<lparr>is_first := False\<rparr>))"
  by pat_completeness auto
termination
proof (relation "measure (\<lambda>(t, buff_start, l). Suc (length (start t)) - buff t)")
  show "wf (measure (\<lambda>(t, buff_start, l). Suc (length (start t)) - buff t))"
    by simp
next
  fix t :: tokenizer_t and buff_start :: nat and l :: read_string_locals
    and error_location :: nat and ta :: tokenizer_t and tb :: tokenizer_t and la :: read_string_locals
  assume "at (start t) (buff t) = BACKSLASH"
  then have "buff t < length (start t)" by (auto dest: at_eq_cases)
  moreover assume "ta = t\<lparr>buff := buff t + 1\<rparr>" "tb = ta\<lparr>buff := buff ta - 1\<rparr>"
  ultimately show "((tb\<lparr>buff := buff tb + 1\<rparr>, buff_start, la), t, buff_start, l)
      \<in> measure (\<lambda>(t, buff_start, l). Suc (length (start t)) - buff t)"
    by simp
next
  fix t :: tokenizer_t and buff_start :: nat and l :: read_string_locals
    and ta :: tokenizer_t
  assume "at (start t) (buff t) = BACKSLASH"
  then have "buff t < length (start t)" by (auto dest: at_eq_cases)
  moreover assume "ta = t\<lparr>buff := buff t + 1\<rparr>"
  ultimately show "((ta\<lparr>buff := buff ta + 1\<rparr>, buff_start, l), t, buff_start, l)
      \<in> measure (\<lambda>(t, buff_start, l). Suc (length (start t)) - buff t)"
    by simp
next
  fix t :: tokenizer_t and buff_start :: nat and l :: read_string_locals
    and b :: loop_exit and t' :: tokenizer_t and l' :: read_string_locals
  assume "read_string_switch t buff_start l = Inr b" "b = Broke t' l'" "\<not> \<not> do_loop l'"
  then have "start t' = start t \<and> buff t \<le> buff t' \<and> buff t' < length (start t)"
    by (auto dest: read_string_switch_Broke)
  then show "((t'\<lparr>buff := buff t' + 1\<rparr>, buff_start, l'\<lparr>is_first := False\<rparr>), t, buff_start, l)
      \<in> measure (\<lambda>(t, buff_start, l). Suc (length (start t)) - buff t)"
    by auto
next
  fix t :: tokenizer_t and buff_start :: nat and l :: read_string_locals
  assume "\<not> \<not> myal (at (start t) (buff t))"
  then have "buff t < length (start t)"
    by (auto dest: myal_at_less)
  then show "((t\<lparr>buff := buff t + 1\<rparr>, buff_start, l\<lparr>is_first := False\<rparr>), t, buff_start, l)
      \<in> measure (\<lambda>(t, buff_start, l). Suc (length (start t)) - buff t)"
    by simp
qed

declare read_string_loop.simps [simp del]

text \<open>
  What follows the loop: the error for an unterminated subshell or slice in strict
  mode, or the \<open>TOK_STRING\<close> token from \<open>buff_start\<close> to the cursor.
\<close>

definition read_string_finish ::
  "tokenizer_t \<Rightarrow> nat \<Rightarrow> read_string_locals \<Rightarrow> failure + tokenizer_t" where
  "read_string_finish t buff_start l =
     (if \<not> accept_unfinished t \<and> mode l \<noteq> mode_regular_text then
        (case mode l of
           mode_subshell \<Rightarrow>
             if \<not> paran_count l > 0 then Inl AssertionFailed
             else
               let offset_of_open_paran =
                     (if paran_count l \<le> paran_offsets_max
                      then paran_offsets l ! (paran_count l - 1) else 0)
               in call_error t TOK_UNTERMINATED_SUBSHELL offset_of_open_paran
         | mode_array_brackets \<Rightarrow> call_error t TOK_UNTERMINATED_SLICE (offset_of_bracket l)
         | mode_array_brackets_and_subshell \<Rightarrow>
             call_error t TOK_UNTERMINATED_SLICE (offset_of_bracket l)
         | mode_regular_text \<Rightarrow> Inl Died)
      else
        let len = buff t - buff_start
        in Inr (t\<lparr>last_token := slice (start t) buff_start len, last_type := TOK_STRING\<rparr>))"

definition read_string_locals_init :: read_string_locals where
  "read_string_locals_init =
     \<lparr>do_loop = True, paran_count = 0, paran_offsets = replicate paran_offsets_max 0,
      offset_of_bracket = 0, is_first = True, mode = mode_regular_text\<rparr>"

text \<open>
  \<^verbatim>\<open>read_string\<close> from an iteration of its loop on: the loop, then what follows it.
  \<^verbatim>\<open>read_string\<close> itself starts at the first iteration, with the locals as declared.
\<close>

definition read_string_from ::
  "tokenizer_t \<Rightarrow> nat \<Rightarrow> read_string_locals \<Rightarrow> failure + tokenizer_t" where
  "read_string_from t buff_start l =
     (case read_string_loop t buff_start l of
        Inl e \<Rightarrow> Inl e
      | Inr (Returned t') \<Rightarrow> Inr t'
      | Inr (Broke t' l') \<Rightarrow> read_string_finish t' buff_start l')"

definition read_string :: "tokenizer_t \<Rightarrow> failure + tokenizer_t" where
  "read_string t = (let buff_start = buff t in read_string_from t buff_start read_string_locals_init)"

section \<open>The redirection and fd-pipe sub-parser\<close>

lemma iswdigit_at_less: "iswdigit (at s i) \<Longrightarrow> i < length s"
  by (rule at_not_NUL_less) (auto simp: iswdigit_def)

text \<open>\<^verbatim>\<open>buff[idx] - L'0'\<close>\<close>

definition digit_value :: "wchar \<Rightarrow> int" where
  "digit_value c = int (of_char c) - int (of_char (CHR ''0''))"

text \<open>
  The digit loop. \<open>big_fd\<close> is a \<^verbatim>\<open>long long\<close>; it is multiplied only while it is at
  most \<open>INT_MAX\<close>, so it stays below \<open>10 * INT_MAX + 10\<close> and never wraps. The pointer
  \<^verbatim>\<open>buff\<close> of the sub-parser is the index \<open>b\<close> into \<open>s\<close>.
\<close>

function read_fd_digits :: "wcstring \<Rightarrow> nat \<Rightarrow> nat \<Rightarrow> int \<Rightarrow> nat \<times> int" where
  "read_fd_digits s b idx big_fd =
     (if iswdigit (at s (b + idx)) then
        read_fd_digits s b (idx + 1)
          (if big_fd \<le> INT_MAX then big_fd * 10 + digit_value (at s (b + idx)) else big_fd)
      else (idx, big_fd))"
  by pat_completeness auto
termination
  by (relation "measure (\<lambda>(s, b, idx, big_fd). length s - (b + idx))")
    (auto dest: iswdigit_at_less)

declare read_fd_digits.simps [simp del]

text \<open>The result is \<^verbatim>\<open>(idx, *out_redirection_mode, *out_fd)\<close>.\<close>

definition read_redirection_or_fd_pipe :: "wcstring \<Rightarrow> nat \<Rightarrow> nat \<times> token_type \<times> int" where
  "read_redirection_or_fd_pipe s b =
     (let (idx, big_fd) = read_fd_digits s b 0 0;
          fd = (if big_fd > INT_MAX then - 1 else big_fd);
          (fd, errored) =
            (if idx = 0 then
               (if at s (b + idx) = CHR ''>'' then (STDOUT_FILENO, False)
                else if at s (b + idx) = CHR ''<'' then (STDIN_FILENO, False)
                else if at s (b + idx) = CHR ''^'' then (STDERR_FILENO, False)
                else (fd, True))
             else (fd, False));
          redirect_char = at s (b + idx);
          idx = idx + 1;
          (redirection_mode, idx, errored) =
            (if redirect_char = CHR ''>'' \<or> (redirect_char = CHR ''^'' \<and> idx = 1) then
               (if at s (b + idx) = redirect_char then (TOK_REDIRECT_APPEND, idx + 1, errored)
                else (TOK_REDIRECT_OUT, idx, errored))
             else if redirect_char = CHR ''<'' then (TOK_REDIRECT_IN, idx, errored)
             else (TOK_NONE, idx, True));
          (redirection_mode, idx) =
            (if errored then (TOK_NONE, 0)
             else
               let opt_char = at s (b + idx)
               in if opt_char = CHR ''&'' then (TOK_REDIRECT_FD, idx + 1)
                  else if opt_char = CHR ''?'' then (TOK_REDIRECT_NOCLOB, idx + 1)
                  else if opt_char = CHR ''|'' then (TOK_PIPE, idx + 1)
                  else (redirection_mode, idx))
      in (idx, redirection_mode, fd))"

definition redirection_type_for_string :: "wcstring \<Rightarrow> token_type \<times> int" where
  "redirection_type_for_string str =
     (case read_redirection_or_fd_pipe str 0 of
        (consumed, out_mode, fd) \<Rightarrow>
          (if out_mode = TOK_PIPE \<or> fd < 0 then TOK_NONE else out_mode, fd))"

definition fd_redirected_by_pipe :: "wcstring \<Rightarrow> int" where
  "fd_redirected_by_pipe str =
     (if str = ''|'' then STDOUT_FILENO
      else case read_redirection_or_fd_pipe str 0 of
             (consumed, out_mode, fd) \<Rightarrow> (if out_mode \<noteq> TOK_PIPE \<or> fd < 0 then - 1 else fd))"

text \<open>
  Modelled from the spec: \<^verbatim>\<open>to_string\<close> is declared in \<^verbatim>\<open>common.h\<close> and its body is not
  among the sources. The text of a redirection or pipe token is the fd as decimal text.
\<close>

fun decimal :: "nat \<Rightarrow> wcstring" where
  "decimal n =
     (if n < 10 then [''0123456789'' ! n]
      else decimal (n div 10) @ [''0123456789'' ! (n mod 10)])"

declare decimal.simps [simp del]

definition to_string :: "int \<Rightarrow> wcstring" where
  "to_string i = (if i < 0 then CHR ''-'' # decimal (nat (- i)) else decimal (nat i))"

section \<open>The tokenizer driver\<close>

lemma iswspace_not_nl_at_less: "iswspace_not_nl (at s i) \<Longrightarrow> i < length s"
  by (rule at_not_NUL_less) (auto simp: iswspace_not_nl_def iswspace_def)

text \<open>
  The first loop of \<^verbatim>\<open>tok_next\<close>: non-newline whitespace and escaped newlines. An escaped
  newline sets \<open>continue_line_after_comment\<close>.
\<close>

function skip_whitespace :: "tokenizer_t \<Rightarrow> tokenizer_t" where
  "skip_whitespace t =
     (if at (start t) (buff t) = BACKSLASH \<and> at (start t) (buff t + 1) = NL then
        skip_whitespace (t\<lparr>buff := buff t + 2, continue_line_after_comment := True\<rparr>)
      else if iswspace_not_nl (at (start t) (buff t)) then
        skip_whitespace (t\<lparr>buff := buff t + 1\<rparr>)
      else t)"
  by pat_completeness auto
termination
  by (relation "measure (\<lambda>t. length (start t) - buff t)")
    (auto dest: iswspace_not_nl_at_less at_eq_cases)

declare skip_whitespace.simps [simp del]

text \<open>\<^verbatim>\<open>while (this->buff[0] != L'\n' && this->buff[0] != L'\0') this->buff++;\<close>\<close>

function skip_comment :: "wcstring \<Rightarrow> nat \<Rightarrow> nat" where
  "skip_comment s b = (if at s b \<noteq> NL \<and> at s b \<noteq> NUL then skip_comment s (b + 1) else b)"
  by pat_completeness auto
termination
  by (relation "measure (\<lambda>(s, b). length s - b)") (auto dest: at_not_NUL_less)

declare skip_comment.simps [simp del]

text \<open>\<^verbatim>\<open>while (iswspace_not_nl(this->buff[0])) this->buff++;\<close>\<close>

function skip_blanks :: "wcstring \<Rightarrow> nat \<Rightarrow> nat" where
  "skip_blanks s b = (if iswspace_not_nl (at s b) then skip_blanks s (b + 1) else b)"
  by pat_completeness auto
termination
  by (relation "measure (\<lambda>(s, b). length s - b)") (auto dest: iswspace_not_nl_at_less)

declare skip_blanks.simps [simp del]

text \<open>The newline compression after a \<open>TOK_END\<close> token.\<close>

function skip_newlines :: "wcstring \<Rightarrow> nat \<Rightarrow> nat" where
  "skip_newlines s b =
     (if at s b = NL \<or> at s b = CR \<or> at s b = CHR '' '' \<or> at s b = TAB
      then skip_newlines s (b + 1) else b)"
  by pat_completeness auto
termination
  by (relation "measure (\<lambda>(s, b). length s - b)") (auto dest: at_eq_cases)

declare skip_newlines.simps [simp del]

lemma skip_comment_ge: "b \<le> skip_comment s b"
  by (induction s b rule: skip_comment.induct) (subst skip_comment.simps, auto)

lemma skip_blanks_ge: "b \<le> skip_blanks s b"
  by (induction s b rule: skip_blanks.induct) (subst skip_blanks.simps, auto)

lemma skip_comment_hash: "at s b = CHR ''#'' \<Longrightarrow> b < skip_comment s b"
  using skip_comment_ge [of "b + 1" s] by (subst skip_comment.simps) auto

text \<open>
  The comment loop \<^verbatim>\<open>while (*this->buff == L'#')\<close>. The flag of the result says whether
  the loop returned a \<open>TOK_COMMENT\<close> token from \<^verbatim>\<open>tok_next\<close>.
\<close>

function skip_comments :: "tokenizer_t \<Rightarrow> tokenizer_t \<times> bool" where
  "skip_comments t =
     (if at (start t) (buff t) = CHR ''#'' then
        (let comment_start = buff t;
             t = t\<lparr>buff := skip_comment (start t) (buff t)\<rparr>;
             comment_len = buff t - comment_start;
             t = (if at (start t) (buff t) = NL \<and> continue_line_after_comment t
                  then t\<lparr>buff := buff t + 1\<rparr> else t)
         in if show_comments t then
              (t\<lparr>last_pos := comment_start,
                 last_token := slice (start t) comment_start comment_len,
                 last_type := TOK_COMMENT\<rparr>, True)
            else skip_comments (t\<lparr>buff := skip_blanks (start t) (buff t)\<rparr>))
      else (t, False))"
  by pat_completeness auto
termination
proof (relation "measure (\<lambda>t. length (start t) - buff t)")
  show "wf (measure (\<lambda>t. length (start t) - buff t))"
    by simp
next
  fix t ta tb :: tokenizer_t and comment_start comment_len :: nat
  assume hash: "at (start t) (buff t) = CHR ''#''"
    and ta: "ta = t\<lparr>buff := skip_comment (start t) (buff t)\<rparr>"
    and tb: "tb = (if at (start ta) (buff ta) = NL \<and> continue_line_after_comment ta
                   then ta\<lparr>buff := buff ta + 1\<rparr> else ta)"
  from hash have "buff t < length (start t)" by (auto dest: at_eq_cases)
  moreover from hash have "buff t < skip_comment (start t) (buff t)"
    by (rule skip_comment_hash)
  with ta tb have "buff t < buff tb" "start tb = start t" by (auto split: if_splits)
  moreover have "buff tb \<le> skip_blanks (start tb) (buff tb)"
    by (rule skip_blanks_ge)
  ultimately show "(tb\<lparr>buff := skip_blanks (start tb) (buff tb)\<rparr>, t)
      \<in> measure (\<lambda>t. length (start t) - buff t)"
    by simp
qed

declare skip_comments.simps [simp del]

definition returning :: "failure + tokenizer_t \<Rightarrow> failure + bool \<times> tokenizer_t" where
  "returning r = (case r of Inl e \<Rightarrow> Inl e | Inr t \<Rightarrow> Inr (True, t))"

text \<open>
  The \<^verbatim>\<open>switch (*this->buff)\<close> of \<^verbatim>\<open>tok_next\<close>, entered with \<open>last_pos\<close> at the
  cursor. The case of NUL returns false; the \<^verbatim>\<open>break\<close> of every other case leads to the
  final \<^verbatim>\<open>return true\<close>.
\<close>

definition tok_next_switch :: "tokenizer_t \<Rightarrow> failure + bool \<times> tokenizer_t" where
  "tok_next_switch t =
     (let c = at (start t) (buff t)
      in if c = NUL then
           Inr (False, t\<lparr>last_type := TOK_END, has_next := False, last_token := []\<rparr>)
         else if c = CR \<or> c = NL \<or> c = CHR '';'' then
           (let t = t\<lparr>last_type := TOK_END, last_token := [c], buff := buff t + 1\<rparr>
            in Inr (True,
                 if \<not> show_blank_lines t
                 then t\<lparr>buff := skip_newlines (start t) (buff t)\<rparr> else t))
         else if c = CHR ''&'' then
           Inr (True, t\<lparr>last_type := TOK_BACKGROUND, buff := buff t + 1\<rparr>)
         else if c = CHR ''|'' then
           Inr (True, t\<lparr>last_token := ''1'', last_type := TOK_PIPE, buff := buff t + 1\<rparr>)
         else if c = CHR ''>'' \<or> c = CHR ''<'' \<or> c = CHR ''^'' then
           (case read_redirection_or_fd_pipe (start t) (buff t) of
              (consumed, redirection_mode, fd) \<Rightarrow>
                if consumed = 0 \<or> fd < 0 then
                  returning (call_error t TOK_INVALID_REDIRECT (buff t))
                else
                  Inr (True, t\<lparr>buff := buff t + consumed, last_type := redirection_mode,
                                last_token := to_string fd\<rparr>))
         else
           (let error_location = buff t
            in case (if iswdigit c then read_redirection_or_fd_pipe (start t) (buff t)
                     else (0, TOK_NONE, - 1)) of
                 (consumed, redirection_mode, fd) \<Rightarrow>
                   if consumed > 0 then
                     if redirection_mode = TOK_PIPE \<and> fd = 0 then
                       returning (call_error t TOK_INVALID_PIPE error_location)
                     else
                       Inr (True, t\<lparr>buff := buff t + consumed,
                                     last_type := redirection_mode,
                                     last_token := to_string fd\<rparr>)
                   else returning (read_string t)))"

text \<open>
  \<^verbatim>\<open>tok_next\<close>: the value returned and the tokenizer it leaves. The comment loop may
  return a \<open>TOK_COMMENT\<close> token; otherwise \<open>continue_line_after_comment\<close> is cleared and
  \<open>last_pos\<close> is set to the cursor before the \<^verbatim>\<open>switch\<close>.
\<close>

definition tok_next :: "tokenizer_t \<Rightarrow> failure + bool \<times> tokenizer_t" where
  "tok_next t =
     (if \<not> has_next t then Inr (False, t)
      else
        case skip_comments (skip_whitespace t) of
          (t, True) \<Rightarrow> Inr (True, t)
        | (t, False) \<Rightarrow>
            tok_next_switch (t\<lparr>continue_line_after_comment := False, last_pos := buff t\<rparr>))"

text \<open>
  \<^verbatim>\<open>tokenizer_t::next\<close>: \<open>None\<close> when it returns false (and leaves \<^verbatim>\<open>*result\<close> as it
  was), otherwise the token it stores in \<^verbatim>\<open>*result\<close>.
\<close>

definition tokenizer_next :: "tokenizer_t \<Rightarrow> failure + tok_t option \<times> tokenizer_t" where
  "tokenizer_next t =
     (case tok_next t of
        Inl e \<Rightarrow> Inl e
      | Inr (False, t) \<Rightarrow> Inr (None, t)
      | Inr (True, t) \<Rightarrow>
          (let current_pos = buff t
           in Inr (Some
                \<lparr>tok_text = last_token t,
                 tok_type = last_type t,
                 tok_error = (if last_type t = TOK_ERROR then error t else TOK_ERROR_NONE),
                 tok_offset = last_pos t,
                 tok_length = (if current_pos \<ge> last_pos t then current_pos - last_pos t else 0),
                 tok_error_offset =
                   (if last_type t = TOK_ERROR \<and> global_error_offset t \<ge> last_pos t
                       \<and> global_error_offset t < current_pos
                    then global_error_offset t - last_pos t else 0)\<rparr>, t)))"

definition tok_first :: "wcstring \<Rightarrow> failure + wcstring" where
  "tok_first str =
     (let t = tokenizer_init str [TOK_SQUASH_ERRORS]
      in case tokenizer_next t of
           Inl e \<Rightarrow> Inl e
         | Inr (Some token, t) \<Rightarrow>
             Inr (if tok_type token = TOK_STRING then tok_text token else [])
         | Inr (None, t) \<Rightarrow> Inr [])"

text \<open>
  A caller's loop \<^verbatim>\<open>while (t.next(&token))\<close>, stopped after at most \<open>n\<close> calls: the
  tokens the calls deliver, in order.
\<close>

fun next_tokens :: "nat \<Rightarrow> tokenizer_t \<Rightarrow> failure + tok_t list" where
  "next_tokens 0 t = Inr []"
| "next_tokens (Suc n) t =
     (case tokenizer_next t of
        Inl e \<Rightarrow> Inl e
      | Inr (None, t') \<Rightarrow> Inr []
      | Inr (Some token, t') \<Rightarrow>
          (case next_tokens n t' of
             Inl e \<Rightarrow> Inl e
           | Inr tokens \<Rightarrow> Inr (token # tokens)))"

text \<open>
  The tokenizer states a caller can see: \<open>after_calls t t'\<close> when some number of calls of
  \<^verbatim>\<open>next\<close> leads from \<open>t\<close> to \<open>t'\<close>.
\<close>

inductive after_calls :: "tokenizer_t \<Rightarrow> tokenizer_t \<Rightarrow> bool" where
  no_call: "after_calls t t"
| one_more: "after_calls t t1 \<Longrightarrow> tokenizer_next t1 = Inr (r, t2) \<Longrightarrow> after_calls t t2"

section \<open>Notions used to state the properties\<close>

text \<open>One pass of the sub-parser's digit loop over the character \<open>c\<close>.\<close>

definition fd_step :: "int \<Rightarrow> wchar \<Rightarrow> int" where
  "fd_step big_fd c = (if big_fd \<le> INT_MAX then big_fd * 10 + digit_value c else big_fd)"

text \<open>The number that a run of decimal digits denotes.\<close>

definition decimal_value :: "wcstring \<Rightarrow> int" where
  "decimal_value ds = foldl (\<lambda>a c. a * 10 + digit_value c) 0 ds"

text \<open>The fd that the sub-parser's digit loop and saturation yield for a run of digits.\<close>

definition parsed_fd :: "wcstring \<Rightarrow> int" where
  "parsed_fd ds = (if decimal_value ds > INT_MAX then - 1 else decimal_value ds)"



text \<open>
  \<open>advanced t t'\<close>: \<open>t'\<close> is \<open>t\<close> with the cursor moved forward, not past the end of
  the buffer unless it was there before. \<open>errored t t'\<close>: \<open>t'\<close> comes from \<open>t\<close> by
  moving the cursor forward and then a \<^verbatim>\<open>call_error\<close>.
\<close>

definition advanced :: "tokenizer_t \<Rightarrow> tokenizer_t \<Rightarrow> bool" where
  "advanced t t' =
     (\<exists>b. t' = t\<lparr>buff := b\<rparr> \<and> buff t \<le> b
          \<and> (buff t \<le> length (start t) \<longrightarrow> b \<le> length (start t)))"

definition errored :: "tokenizer_t \<Rightarrow> tokenizer_t \<Rightarrow> bool" where
  "errored t t' =
     (\<exists>t1 e w. advanced t t1 \<and> e \<noteq> TOK_ERROR_NONE \<and> call_error t1 e w = Inr t')"

text \<open>
  What holds of the token that the tokenizer holds (\<open>last_type\<close>, \<open>last_token\<close>,
  \<open>last_pos\<close> and the cursor) when \<^verbatim>\<open>tok_next\<close> has returned true.
\<close>

definition token_ok :: "tokenizer_t \<Rightarrow> bool" where
  "token_ok t =
     (buff t \<le> length (start t) \<and> last_pos t \<le> buff t
      \<and> (last_type t = TOK_STRING \<longrightarrow>
            last_token t = slice (start t) (last_pos t) (buff t - last_pos t))
      \<and> (last_type t = TOK_COMMENT \<longrightarrow>
            (\<exists>len. last_token t = slice (start t) (last_pos t) len
                   \<and> (buff t = last_pos t + len
                        \<or> buff t = last_pos t + len + 1
                            \<and> at (start t) (last_pos t + len) = NL)))
      \<and> (last_type t = TOK_END \<longrightarrow>
            last_token t = [at (start t) (last_pos t)] \<and> last_pos t < buff t)
      \<and> (last_type t = TOK_PIPE \<and> at (start t) (last_pos t) = CHR ''|'' \<longrightarrow>
            last_token t = ''1'' \<and> buff t = last_pos t + 1)
      \<and> (last_type t \<in> {TOK_PIPE, TOK_REDIRECT_OUT, TOK_REDIRECT_APPEND, TOK_REDIRECT_IN,
                         TOK_REDIRECT_FD, TOK_REDIRECT_NOCLOB}
            \<and> at (start t) (last_pos t) \<noteq> CHR ''|'' \<longrightarrow>
            (\<exists>fd. read_redirection_or_fd_pipe (start t) (last_pos t) =
                     (buff t - last_pos t, last_type t, fd)
                  \<and> last_token t = to_string fd))
      \<and> (last_type t = TOK_ERROR \<longrightarrow>
            \<not> has_next t
            \<and> (\<exists>msg. error_message (error t) = Inr msg
                   \<and> last_token t = (if squash_errors t then [] else msg)))
      \<and> last_type t \<noteq> TOK_NONE)"

text \<open>
  What the assertion \<^verbatim>\<open>assert(paran_count > 0)\<close> of the string scanner relies on: in the
  two subshell modes at least one parenthesis is open.
\<close>

definition paran_inv :: "read_string_locals \<Rightarrow> bool" where
  "paran_inv l =
     (mode l = mode_subshell \<or> mode l = mode_array_brackets_and_subshell \<longrightarrow> 0 < paran_count l)"

section \<open>Properties of the word-motion state machines\<close>

lemma punctuation_loop_step:
  assumes "0 \<le> st" "st \<le> 3"
  shows "\<exists>b st'. consume_char_punctuation_loop c st False = Some (b, st')
           \<and> st \<le> st' \<and> st' \<le> 3 \<and> (\<not> b \<longrightarrow> st' = 3) \<and> (st = 3 \<longrightarrow> \<not> b)"
proof -
  from assms have "st = 0 \<or> st = 1 \<or> st = 2 \<or> st = 3" by arith
  then show ?thesis
    by (elim disjE) (auto simp: consume_char_punctuation_loop.simps)
qed

lemma whitespace_loop_step:
  assumes "0 \<le> st" "st \<le> 3"
  shows "\<exists>b st'. consume_char_whitespace_loop c st False = Some (b, st')
           \<and> st \<le> st' \<and> st' \<le> 3 \<and> (\<not> b \<longrightarrow> st' = 3) \<and> (st = 3 \<longrightarrow> \<not> b)"
proof -
  from assms have "st = 0 \<or> st = 1 \<or> st = 2 \<or> st = 3" by arith
  then show ?thesis
    by (elim disjE) (auto simp: consume_char_whitespace_loop.simps)
qed

lemma path_components_loop_step:
  assumes "0 \<le> st" "st \<le> 5"
  shows "\<exists>b st'. consume_char_path_components_loop c st False = Some (b, st')
           \<and> st \<le> st' \<and> st' \<le> 5 \<and> (\<not> b \<longrightarrow> st' = 5) \<and> (st = 5 \<longrightarrow> \<not> b)"
proof -
  from assms have "st = 0 \<or> st = 1 \<or> st = 2 \<or> st = 3 \<or> st = 4 \<or> st = 5" by arith
  then show ?thesis
    by (elim disjE) (auto simp: consume_char_path_components_loop.simps)
qed

lemma consume_char_step:
  assumes "state_in_enum m"
  shows "\<exists>b m'. consume_char m c = Some (b, m') \<and> state_in_enum m' \<and> style m' = style m
           \<and> state m \<le> state m' \<and> (\<not> b \<longrightarrow> state m' = s_end (style m))
           \<and> (state m = s_end (style m) \<longrightarrow> \<not> b)"
proof (cases "style m")
  case move_word_style_punctuation
  with assms have "0 \<le> state m" "state m \<le> 3" by (simp_all add: state_in_enum_def s_end_def)
  from punctuation_loop_step [OF this, of c] obtain b st' where
    "consume_char_punctuation_loop c (state m) False = Some (b, st')" "state m \<le> st'"
    "st' \<le> 3" "\<not> b \<longrightarrow> st' = 3" "state m = 3 \<longrightarrow> \<not> b"
    by blast
  with move_word_style_punctuation \<open>0 \<le> state m\<close> show ?thesis
    by (simp add: consume_char_def consume_char_punctuation_def state_in_enum_def s_end_def)
next
  case move_word_style_path_components
  with assms have "0 \<le> state m" "state m \<le> 5" by (simp_all add: state_in_enum_def s_end_def)
  from path_components_loop_step [OF this, of c] obtain b st' where
    "consume_char_path_components_loop c (state m) False = Some (b, st')" "state m \<le> st'"
    "st' \<le> 5" "\<not> b \<longrightarrow> st' = 5" "state m = 5 \<longrightarrow> \<not> b"
    by blast
  with move_word_style_path_components \<open>0 \<le> state m\<close> show ?thesis
    by (simp add: consume_char_def consume_char_path_components_def state_in_enum_def s_end_def)
next
  case move_word_style_whitespace
  with assms have "0 \<le> state m" "state m \<le> 3" by (simp_all add: state_in_enum_def s_end_def)
  from whitespace_loop_step [OF this, of c] obtain b st' where
    "consume_char_whitespace_loop c (state m) False = Some (b, st')" "state m \<le> st'"
    "st' \<le> 3" "\<not> b \<longrightarrow> st' = 3" "state m = 3 \<longrightarrow> \<not> b"
    by blast
  with move_word_style_whitespace \<open>0 \<le> state m\<close> show ?thesis
    by (simp add: consume_char_def consume_char_whitespace_def state_in_enum_def s_end_def)
qed

lemma consume_chars_at_end:
  assumes "state_in_enum m" "state m = s_end (style m)"
  shows "\<exists>rs. consume_chars m cs = Some rs \<and> (\<forall>r \<in> set rs. \<not> fst r)"
  using assms
proof (induction cs arbitrary: m)
  case Nil
  then show ?case by simp
next
  case (Cons c cs)
  from consume_char_step [OF Cons.prems(1), of c] obtain b m' where
    step: "consume_char m c = Some (b, m')" "state_in_enum m'" "style m' = style m"
      "state m \<le> state m'" "\<not> b"
    using Cons.prems(2) by blast
  from step(2,3,4) Cons.prems have "state m' = s_end (style m')"
    by (simp add: state_in_enum_def)
  from Cons.IH [OF step(2) this] obtain rs where
    "consume_chars m' cs = Some rs" "\<forall>r \<in> set rs. \<not> fst r" by blast
  with step show ?case by simp
qed

lemmas move_word_eval =
  state_in_enum_def move_word_state_machine_init_def s_end_def consume_char_def
  consume_char_path_components_def consume_char_punctuation_def consume_char_whitespace_def
  consume_char_path_components_loop.simps consume_char_punctuation_loop.simps
  consume_char_whitespace_loop.simps is_path_component_character_def
  tok_is_string_character_def wcschr_def iswspace_def iswalnum_def iswalpha_def iswdigit_def
  iswblank_def iswgraph_def

text \<open>
  C9: for each of the three word-motion automata, started in a state of its enum (a fresh
  or reset machine is in state 0), any sequence of \<open>consume_char\<close> calls without a reset
  returns, the state never moves backward (the states after the calls, preceded by the
  state before the first, are in non-decreasing order), and once a call has returned false
  every later call returns false.
\<close>

theorem consume_char_states_only_move_forward:
  assumes "state_in_enum m"
  shows "\<exists>rs. consume_chars m cs = Some rs \<and> length rs = length cs
           \<and> sorted (state m # map snd rs)
           \<and> (\<forall>i j. i < j \<longrightarrow> j < length rs \<longrightarrow> \<not> fst (rs ! i) \<longrightarrow> \<not> fst (rs ! j))"
  using assms
proof (induction cs arbitrary: m)
  case Nil
  then show ?case by simp
next
  case (Cons c cs)
  from consume_char_step [OF Cons.prems, of c] obtain b m' where
    step: "consume_char m c = Some (b, m')" "state_in_enum m'" "style m' = style m"
      "state m \<le> state m'" "\<not> b \<longrightarrow> state m' = s_end (style m)"
    by blast
  from Cons.IH [OF step(2)] obtain rs where
    rs: "consume_chars m' cs = Some rs" "length rs = length cs"
      "sorted (state m' # map snd rs)"
      "\<forall>i j. i < j \<longrightarrow> j < length rs \<longrightarrow> \<not> fst (rs ! i) \<longrightarrow> \<not> fst (rs ! j)"
    by blast
  have tail_false: "\<forall>r \<in> set rs. \<not> fst r" if "\<not> b"
  proof -
    from that step have "state m' = s_end (style m')" by simp
    from consume_chars_at_end [OF step(2) this, of cs] rs(1) show ?thesis by simp
  qed
  have later: "\<not> fst (((b, state m') # rs) ! j)"
    if "i < j" "j < length ((b, state m') # rs)" "\<not> fst (((b, state m') # rs) ! i)" for i j
  proof (cases i)
    case 0
    with that have "\<not> b" by simp
    from that obtain j' where j': "j = Suc j'" by (cases j) auto
    with that have "rs ! j' \<in> set rs" by simp
    with tail_false [OF \<open>\<not> b\<close>] j' show ?thesis by simp
  next
    case (Suc i')
    from that obtain j' where j': "j = Suc j'" by (cases j) auto
    with that Suc rs(4) show ?thesis by simp
  qed
  from rs(3) step(4) have "sorted (state m # map snd ((b, state m') # rs))" by fastforce
  with step(1) rs(1,2) later show ?case by simp
qed

theorem consume_char_states_only_move_forward_witness:
  "state_in_enum (move_word_state_machine_init move_word_style_path_components)
   \<and> consume_chars (move_word_state_machine_init move_word_style_path_components) ''/usr/bin x''
       = Some [(True, 1), (True, 4), (True, 4), (True, 4), (False, 5), (False, 5),
               (False, 5), (False, 5), (False, 5), (False, 5)]
   \<and> sorted [0, 1, 4, 4, 4, 5, 5, 5, 5, 5, (5::int)]"
proof -
  have h: "state_in_enum (move_word_state_machine_init move_word_style_path_components)"
    by (simp add: move_word_eval)
  from consume_char_states_only_move_forward [OF h, of "''/usr/bin x''"] h show ?thesis
    by (simp add: move_word_eval)
qed

section \<open>Running the tokenizer on a given input\<close>

lemma next_tokens_unfold:
  "0 < n \<Longrightarrow> next_tokens n t =
     (case tokenizer_next t of
        Inl e \<Rightarrow> Inl e
      | Inr (None, t') \<Rightarrow> Inr []
      | Inr (Some token, t') \<Rightarrow>
          (case next_tokens (n - 1) t' of
             Inl e \<Rightarrow> Inl e
           | Inr tokens \<Rightarrow> Inr (token # tokens)))"
  by (cases n) (auto split: sum.splits option.splits)

lemmas tok_eval =
  next_tokens_unfold tok_first_def tokenizer_next_def tok_next_def tok_next_switch_def tokenizer_init_def
  returning_def skip_whitespace.simps skip_comments.simps skip_comment.simps skip_blanks.simps
  skip_newlines.simps read_string_def read_string_from_def read_string_loop.simps read_string_switch_def
  read_string_quote_def read_string_finish_def read_string_locals_init_def
  paran_offsets_max_def quote_end_def quote_end_loop.simps wcslen_def slice_def
  read_redirection_or_fd_pipe_def read_fd_digits.simps digit_value_def INT_MAX_def
  STDIN_FILENO_def STDOUT_FILENO_def STDERR_FILENO_def to_string_def decimal.simps
  call_error_def at_def myal_def iswdigit_def iswspace_not_nl_def iswspace_def
  tok_is_string_character_def Let_def

section \<open>Tokens that keep a stale text, and quotes inside array brackets\<close>

text \<open>
  C5: every \<open>TOK_BACKGROUND\<close> token has empty text, whatever tokens came before it. The
  \<^verbatim>\<open>&\<close> case of \<^verbatim>\<open>tok_next\<close> is the only case that does not assign \<open>last_token\<close>, so
  the token carries the text of the token before it: on \<^verbatim>\<open>a&\<close> the second token is a
  \<open>TOK_BACKGROUND\<close> with text \<^verbatim>\<open>a\<close>.
\<close>

theorem background_token_has_stale_text:
  "next_tokens 3 (tokenizer_init ''a&'' []) =
     Inr [\<lparr>tok_text = ''a'', tok_type = TOK_STRING, tok_error = TOK_ERROR_NONE,
            tok_offset = 0, tok_length = 1, tok_error_offset = 0\<rparr>,
          \<lparr>tok_text = ''a'', tok_type = TOK_BACKGROUND, tok_error = TOK_ERROR_NONE,
            tok_offset = 1, tok_length = 1, tok_error_offset = 0\<rparr>]"
  by (simp add: tok_eval)

text \<open>
  C7: in every mode of the string scanner a quote character starts the quote scanner, and
  an unterminated quote is a \<open>TOK_UNTERMINATED_QUOTE\<close> error in strict mode. The case of
  \<open>mode_array_brackets\<close> has no branch for quotes, unlike the cases of the other three
  modes: on \<^verbatim>\<open>a["\<close> in strict mode the quote is skipped as an ordinary character and the
  error is \<open>TOK_UNTERMINATED_SLICE\<close>, reported at the bracket.
\<close>

theorem quote_in_array_brackets_is_not_scanned:
  "next_tokens 2 (tokenizer_init (''a['' @ [DQUOTE]) []) =
     Inr [\<lparr>tok_text = SQUARE_BRACKET_ERROR, tok_type = TOK_ERROR,
            tok_error = TOK_UNTERMINATED_SLICE, tok_offset = 0, tok_length = 3,
            tok_error_offset = 1\<rparr>]"
  by (simp add: tok_eval)

section \<open>The redirection sub-parser on a run of digits\<close>


lemma at_append_right: "at (xs @ ys) (length xs + i) = at ys i"
  by (simp add: at_def nth_append)

lemma at_append_right0: "at (xs @ ys) (length xs) = at ys 0"
  using at_append_right [of xs ys 0] by simp

lemma at_append_left: "i < length xs \<Longrightarrow> at (xs @ ys) i = xs ! i"
  by (simp add: at_def nth_append)

lemma at_Cons_0: "at (x # xs) 0 = x"
  by (simp add: at_def)

lemma at_Cons_Suc: "at (x # xs) (Suc i) = at xs i"
  by (simp add: at_def)

lemma at_drop: "at s (b + i) = at (drop b s) i"
  by (auto simp: at_def)

lemma read_fd_digits_drop: "read_fd_digits s b idx acc = read_fd_digits (drop b s) 0 idx acc"
proof (induction s b idx acc rule: read_fd_digits.induct)
  case (1 s b idx big_fd)
  show ?case
    by (subst read_fd_digits.simps, subst (2) read_fd_digits.simps)
      (use 1 in \<open>simp add: at_drop [of s b idx]\<close>)
qed

lemma read_redirection_or_fd_pipe_drop:
  "read_redirection_or_fd_pipe s b = read_redirection_or_fd_pipe (drop b s) 0"
  unfolding read_redirection_or_fd_pipe_def
  by (simp only: at_drop [of s b] read_fd_digits_drop [of s b] add_0)


lemma read_fd_digits_unfold:
  "read_fd_digits s b idx big_fd =
     (if iswdigit (at s (b + idx))
      then read_fd_digits s b (idx + 1) (fd_step big_fd (at s (b + idx)))
      else (idx, big_fd))"
  by (subst read_fd_digits.simps) (simp add: fd_step_def)

lemma read_fd_digits_run:
  assumes "\<forall>c \<in> set ds. iswdigit c" "\<not> iswdigit (at rest 0)" "length pre = idx"
  shows "read_fd_digits (pre @ ds @ rest) 0 idx acc = (idx + length ds, foldl fd_step acc ds)"
  using assms
proof (induction ds arbitrary: pre idx acc)
  case Nil
  then show ?case
    using at_append_right0 [of pre rest] by (subst read_fd_digits_unfold) simp
next
  case (Cons d ds)
  from Cons.prems have d: "iswdigit d" and at: "at (pre @ (d # ds) @ rest) idx = d"
    using at_append_right0 [of pre "(d # ds) @ rest"] by (simp_all add: at_Cons_0)
  have "read_fd_digits ((pre @ [d]) @ ds @ rest) 0 (Suc idx) (fd_step acc d)
          = (Suc idx + length ds, foldl fd_step (fd_step acc d) ds)"
    using Cons.prems by (intro Cons.IH) simp_all
  with d at show ?case
    by (subst read_fd_digits_unfold) simp
qed

lemma digit_value_range: "iswdigit c \<Longrightarrow> 0 \<le> digit_value c \<and> digit_value c \<le> 9"
  by (auto simp: iswdigit_def digit_value_def less_eq_char_def)

lemma foldl_exact_mono:
  assumes "\<forall>c \<in> set ds. iswdigit c" "INT_MAX < a"
  shows "INT_MAX < foldl (\<lambda>a c. a * 10 + digit_value c) a ds"
  using assms
proof (induction ds arbitrary: a)
  case Nil
  then show ?case by simp
next
  case (Cons d ds)
  from Cons.prems digit_value_range [of d] have "INT_MAX < a * 10 + digit_value d"
    by (simp add: INT_MAX_def)
  with Cons show ?case by simp
qed

lemma foldl_fd_step_sat:
  assumes "\<forall>c \<in> set ds. iswdigit c" "INT_MAX < a"
  shows "foldl fd_step a ds = a"
  using assms by (induction ds arbitrary: a) (simp_all add: fd_step_def)

lemma foldl_fd_step:
  assumes "\<forall>c \<in> set ds. iswdigit c" "0 \<le> a"
  shows "(if foldl fd_step a ds > INT_MAX then - 1 else foldl fd_step a ds)
         = (if foldl (\<lambda>a c. a * 10 + digit_value c) a ds > INT_MAX then - 1
            else foldl (\<lambda>a c. a * 10 + digit_value c) a ds)"
  using assms
proof (induction ds arbitrary: a)
  case Nil
  then show ?case by simp
next
  case (Cons d ds)
  show ?case
  proof (cases "a \<le> INT_MAX")
    case True
    from Cons.prems digit_value_range [of d] have nonneg: "0 \<le> a * 10 + digit_value d" by simp
    from True have "fd_step a d = a * 10 + digit_value d" by (simp add: fd_step_def)
    then have guarded: "foldl fd_step a (d # ds) = foldl fd_step (a * 10 + digit_value d) ds"
      by simp
    have exact: "foldl (\<lambda>a c. a * 10 + digit_value c) a (d # ds)
        = foldl (\<lambda>a c. a * 10 + digit_value c) (a * 10 + digit_value d) ds"
      by simp
    from Cons.prems have "\<forall>c \<in> set ds. iswdigit c" by simp
    from Cons.IH [OF this nonneg] show ?thesis
      unfolding guarded exact .
  next
    case False
    then have a: "INT_MAX < a" by simp
    from Cons.prems have ds: "\<forall>c \<in> set (d # ds). iswdigit c" by simp
    from foldl_fd_step_sat [OF ds a] foldl_exact_mono [OF ds a] a show ?thesis
      by simp
  qed
qed

lemma read_fd_digits_value:
  assumes "\<forall>c \<in> set ds. iswdigit c" "\<not> iswdigit (at rest 0)"
  shows "\<exists>big_fd. read_fd_digits (ds @ rest) 0 0 0 = (length ds, big_fd)
           \<and> (if big_fd > INT_MAX then - 1 else big_fd) = parsed_fd ds"
proof -
  from read_fd_digits_run [OF assms, of "[]" 0 0]
  have "read_fd_digits (ds @ rest) 0 0 0 = (length ds, foldl fd_step 0 ds)" by simp
  moreover from foldl_fd_step [OF assms(1), of 0]
  have "(if foldl fd_step 0 ds > INT_MAX then - 1 else foldl fd_step 0 ds) = parsed_fd ds"
    by (simp add: parsed_fd_def decimal_value_def)
  ultimately show ?thesis by blast
qed

lemma read_redirection_digits_out:
  assumes "\<forall>c \<in> set ds. iswdigit c" "ds \<noteq> []"
  shows "read_redirection_or_fd_pipe (ds @ CHR ''>'' # rest) 0 =
           (if at rest 0 = CHR ''>'' then
              (if at rest 1 = CHR ''&'' then (length ds + 3, TOK_REDIRECT_FD, parsed_fd ds)
               else if at rest 1 = CHR ''?'' then (length ds + 3, TOK_REDIRECT_NOCLOB, parsed_fd ds)
               else if at rest 1 = CHR ''|'' then (length ds + 3, TOK_PIPE, parsed_fd ds)
               else (length ds + 2, TOK_REDIRECT_APPEND, parsed_fd ds))
            else if at rest 0 = CHR ''&'' then (length ds + 2, TOK_REDIRECT_FD, parsed_fd ds)
            else if at rest 0 = CHR ''?'' then (length ds + 2, TOK_REDIRECT_NOCLOB, parsed_fd ds)
            else if at rest 0 = CHR ''|'' then (length ds + 2, TOK_PIPE, parsed_fd ds)
            else (length ds + 1, TOK_REDIRECT_OUT, parsed_fd ds))"
proof -
  have "\<not> iswdigit (at (CHR ''>'' # rest) 0)" by (simp add: at_Cons_0 iswdigit_def)
  from read_fd_digits_value [OF assms(1) this] obtain big_fd where
    d: "read_fd_digits (ds @ CHR ''>'' # rest) 0 0 0 = (length ds, big_fd)"
      "(if big_fd > INT_MAX then - 1 else big_fd) = parsed_fd ds" by blast
  have a0: "at (ds @ CHR ''>'' # rest) (length ds) = CHR ''>''"
    using at_append_right [of ds "CHR ''>'' # rest" 0] by (simp add: at_Cons_0)
  have a1: "at (ds @ CHR ''>'' # rest) (Suc (length ds)) = at rest 0"
    using at_append_right [of ds "CHR ''>'' # rest" 1] by (simp add: at_Cons_Suc)
  have a2: "at (ds @ CHR ''>'' # rest) (Suc (Suc (length ds))) = at rest 1"
    using at_append_right [of ds "CHR ''>'' # rest" 2] by (simp add: at_Cons_Suc numeral_2_eq_2)
  from assms(2) have len: "length ds \<noteq> 0" by simp
  show ?thesis
    unfolding read_redirection_or_fd_pipe_def
    using d(2) len by (simp add: d(1) a0 a1 a2 Let_def)
qed

lemma read_redirection_digits:
  assumes "\<forall>c \<in> set ds. iswdigit c" "ds \<noteq> []" "\<not> iswdigit (at rest 0)"
  shows "read_redirection_or_fd_pipe (ds @ rest) 0 =
           (if at rest 0 = CHR ''>'' then
              (if at rest 1 = CHR ''>'' then
                 (if at rest 2 = CHR ''&'' then (length ds + 3, TOK_REDIRECT_FD, parsed_fd ds)
                  else if at rest 2 = CHR ''?'' then (length ds + 3, TOK_REDIRECT_NOCLOB, parsed_fd ds)
                  else if at rest 2 = CHR ''|'' then (length ds + 3, TOK_PIPE, parsed_fd ds)
                  else (length ds + 2, TOK_REDIRECT_APPEND, parsed_fd ds))
               else if at rest 1 = CHR ''&'' then (length ds + 2, TOK_REDIRECT_FD, parsed_fd ds)
               else if at rest 1 = CHR ''?'' then (length ds + 2, TOK_REDIRECT_NOCLOB, parsed_fd ds)
               else if at rest 1 = CHR ''|'' then (length ds + 2, TOK_PIPE, parsed_fd ds)
               else (length ds + 1, TOK_REDIRECT_OUT, parsed_fd ds))
            else if at rest 0 = CHR ''<'' then
              (if at rest 1 = CHR ''&'' then (length ds + 2, TOK_REDIRECT_FD, parsed_fd ds)
               else if at rest 1 = CHR ''?'' then (length ds + 2, TOK_REDIRECT_NOCLOB, parsed_fd ds)
               else if at rest 1 = CHR ''|'' then (length ds + 2, TOK_PIPE, parsed_fd ds)
               else (length ds + 1, TOK_REDIRECT_IN, parsed_fd ds))
            else (0, TOK_NONE, parsed_fd ds))"
proof -
  from read_fd_digits_value [OF assms(1,3)] obtain big_fd where
    d: "read_fd_digits (ds @ rest) 0 0 0 = (length ds, big_fd)"
      "(if big_fd > INT_MAX then - 1 else big_fd) = parsed_fd ds" by blast
  have a0: "at (ds @ rest) (length ds) = at rest 0"
    using at_append_right [of ds rest 0] by simp
  have a1: "at (ds @ rest) (Suc (length ds)) = at rest 1"
    using at_append_right [of ds rest 1] by simp
  have a2: "at (ds @ rest) (Suc (Suc (length ds))) = at rest 2"
    using at_append_right [of ds rest 2] by (simp add: numeral_2_eq_2)
  from assms(2) have len: "length ds \<noteq> 0" by simp
  show ?thesis
    unfolding read_redirection_or_fd_pipe_def
    using d(2) len by (simp add: d(1) a0 a1 a2 Let_def)
qed

section \<open>Explicit file descriptors in front of a redirection or a pipe\<close>


lemma iswdigit_neq: "iswdigit c \<Longrightarrow> \<not> iswdigit k \<Longrightarrow> (c = k) = False"
  by auto

lemma iswdigit_not_space: "iswdigit c \<Longrightarrow> \<not> iswspace_not_nl c"
  by (auto simp: iswdigit_def iswspace_not_nl_def iswspace_def less_eq_char_def)

lemma tok_next_digit:
  assumes "has_next t" "iswdigit (at (start t) (buff t))"
  shows "tok_next t =
     (case read_redirection_or_fd_pipe (start t) (buff t) of
        (consumed, redirection_mode, fd) \<Rightarrow>
          if consumed > 0 then
            if redirection_mode = TOK_PIPE \<and> fd = 0 then
              returning (call_error (t\<lparr>continue_line_after_comment := False, last_pos := buff t\<rparr>)
                           TOK_INVALID_PIPE (buff t))
            else
              Inr (True, t\<lparr>continue_line_after_comment := False, last_pos := buff t,
                            buff := buff t + consumed, last_type := redirection_mode,
                            last_token := to_string fd\<rparr>)
          else returning (read_string (t\<lparr>continue_line_after_comment := False,
                                          last_pos := buff t\<rparr>)))"
proof -
  note ne = iswdigit_neq [OF assms(2)]
  have ws: "skip_whitespace t = t"
    by (subst skip_whitespace.simps) (simp add: ne iswdigit_def iswdigit_not_space [OF assms(2)])
  have cm: "skip_comments t = (t, False)"
    by (subst skip_comments.simps) (simp add: ne iswdigit_def)
  have c: "at (start t) (buff t) \<noteq> NUL" "at (start t) (buff t) \<noteq> CR"
    "at (start t) (buff t) \<noteq> NL" "at (start t) (buff t) \<noteq> CHR '';''"
    "at (start t) (buff t) \<noteq> CHR ''&''" "at (start t) (buff t) \<noteq> CHR ''|''"
    "at (start t) (buff t) \<noteq> CHR ''>''" "at (start t) (buff t) \<noteq> CHR ''<''"
    "at (start t) (buff t) \<noteq> CHR ''^''"
    by (simp_all add: ne iswdigit_def)
  show ?thesis
    unfolding tok_next_def tok_next_switch_def ws cm
    using assms c by (simp add: Let_def split: prod.splits)
qed

lemma at_drop0: "at s b = at (drop b s) 0"
  using at_drop [of s b 0] by simp

text \<open>
  C6: at a token that consists of decimal digits immediately followed by \<^verbatim>\<open>>|\<close>, the
  sub-parser consumes the digits and the two characters and reports a pipe with the parsed
  fd (the number the digits denote, or -1 when it exceeds \<open>INT_MAX\<close>); \<open>next\<close> delivers a
  \<open>TOK_PIPE\<close> token whose text is that fd in decimal, unless the fd is 0: then it
  delivers a \<open>TOK_ERROR\<close> token with error \<open>TOK_INVALID_PIPE\<close>, placed at the start of the
  token.
\<close>

theorem digits_before_pipe:
  assumes "has_next t"
    and "drop (buff t) (start t) = ds @ ''>|'' @ rest"
    and "ds \<noteq> []" and "list_all iswdigit ds"
  shows "read_redirection_or_fd_pipe (start t) (buff t) = (length ds + 2, TOK_PIPE, parsed_fd ds)
    \<and> (\<exists>t'. tokenizer_next t =
          Inr (Some
            (if parsed_fd ds = 0 then
               \<lparr>tok_text = (if squash_errors t then [] else PIPE_ERROR),
                tok_type = TOK_ERROR, tok_error = TOK_INVALID_PIPE,
                tok_offset = buff t, tok_length = 0, tok_error_offset = 0\<rparr>
             else
               \<lparr>tok_text = to_string (parsed_fd ds),
                tok_type = TOK_PIPE, tok_error = TOK_ERROR_NONE,
                tok_offset = buff t, tok_length = length ds + 2, tok_error_offset = 0\<rparr>), t'))"
proof -
  from assms(4) have digits: "\<forall>c \<in> set ds. iswdigit c" by (simp add: list_all_iff)
  from assms(3) obtain d ds' where ds: "ds = d # ds'" by (cases ds) auto
  with assms(2) digits have first: "iswdigit (at (start t) (buff t))"
    by (simp add: at_drop0 [of "start t"] at_Cons_0)
  have rd: "read_redirection_or_fd_pipe (start t) (buff t) = (length ds + 2, TOK_PIPE, parsed_fd ds)"
    using read_redirection_digits_out [OF digits assms(3), of "CHR ''|'' # rest"] assms(2)
    by (simp add: read_redirection_or_fd_pipe_drop [of "start t"] at_Cons_0)
  show ?thesis
    using assms(1)
    by (simp add: rd tokenizer_next_def tok_next_digit [OF assms(1) first] returning_def
        call_error_def Let_def PIPE_ERROR_def)
qed

theorem digits_before_pipe_witness:
  "has_next (tokenizer_init ''0>|rest'' [])
   \<and> drop (buff (tokenizer_init ''0>|rest'' [])) (start (tokenizer_init ''0>|rest'' []))
       = ''0'' @ ''>|'' @ ''rest''
   \<and> ''0'' \<noteq> [] \<and> list_all iswdigit ''0'' \<and> parsed_fd ''0'' = 0
   \<and> (\<exists>t'. tokenizer_next (tokenizer_init ''0>|rest'' []) =
          Inr (Some \<lparr>tok_text = PIPE_ERROR, tok_type = TOK_ERROR, tok_error = TOK_INVALID_PIPE,
                     tok_offset = 0, tok_length = 0, tok_error_offset = 0\<rparr>, t'))"
proof -
  have fd: "parsed_fd ''0'' = 0"
    by (simp add: parsed_fd_def decimal_value_def digit_value_def INT_MAX_def)
  from digits_before_pipe [of "tokenizer_init ''0>|rest'' []" "''0''" "''rest''"] fd
  show ?thesis
    by (simp add: tokenizer_init_def iswdigit_def)
qed


text \<open>
  C3 as stated: on \<^verbatim>\<open>99999999999>\<close> the driver emits a \<open>TOK_INVALID_REDIRECT\<close> error
  token. It does not: the only token is a \<open>TOK_REDIRECT_OUT\<close> with text \<^verbatim>\<open>-1\<close>.
\<close>

theorem overflowing_fd_is_not_an_error:
  "read_redirection_or_fd_pipe ''99999999999>'' 0 = (12, TOK_REDIRECT_OUT, - 1)
   \<and> next_tokens 2 (tokenizer_init ''99999999999>'' []) =
       Inr [\<lparr>tok_text = ''-1'', tok_type = TOK_REDIRECT_OUT, tok_error = TOK_ERROR_NONE,
              tok_offset = 0, tok_length = 12, tok_error_offset = 0\<rparr>]"
  by (simp add: tok_eval)

lemma decimal_value_Nil: "decimal_value [] = 0"
  by (simp add: decimal_value_def)

text \<open>
  C3, amended: at a run of decimal digits whose value exceeds \<open>INT_MAX\<close>, the digit loop
  of the sub-parser reads all the digits and the sub-parser returns the fd -1, whatever
  follows the digits. When \<^verbatim>\<open>>\<close> or \<^verbatim>\<open><\<close> follows, the sub-parser consumes the digits
  and the redirection after them and reports a redirection or pipe kind; the driver does
  not make this an error: \<open>next\<close> delivers a token of that kind whose text is \<^verbatim>\<open>-1\<close>.
  When anything else follows, the sub-parser reports no redirection (it consumes nothing)
  and the driver hands the input to the string scanner.
\<close>

theorem overflowing_fd_saturates:
  assumes "has_next t"
    and "drop (buff t) (start t) = ds @ rest"
    and "list_all iswdigit ds" and "\<not> iswdigit (at rest 0)"
    and "decimal_value ds > INT_MAX"
  shows "fst (read_fd_digits (start t) (buff t) 0 0) = length ds
    \<and> snd (snd (read_redirection_or_fd_pipe (start t) (buff t))) = - 1
    \<and> (at rest 0 = CHR ''>'' \<or> at rest 0 = CHR ''<'' \<longrightarrow>
         (\<exists>consumed kind t'.
            read_redirection_or_fd_pipe (start t) (buff t) = (consumed, kind, - 1)
            \<and> length ds < consumed
            \<and> kind \<in> {TOK_REDIRECT_OUT, TOK_REDIRECT_APPEND, TOK_REDIRECT_IN, TOK_REDIRECT_FD,
                       TOK_REDIRECT_NOCLOB, TOK_PIPE}
            \<and> tokenizer_next t =
                Inr (Some \<lparr>tok_text = ''-1'', tok_type = kind, tok_error = TOK_ERROR_NONE,
                           tok_offset = buff t, tok_length = consumed, tok_error_offset = 0\<rparr>,
                     t')))
    \<and> (at rest 0 \<noteq> CHR ''>'' \<and> at rest 0 \<noteq> CHR ''<'' \<longrightarrow>
         read_redirection_or_fd_pipe (start t) (buff t) = (0, TOK_NONE, - 1)
         \<and> tok_next t =
             returning (read_string (t\<lparr>continue_line_after_comment := False,
                                        last_pos := buff t\<rparr>)))"
proof -
  from assms(3) have digits: "\<forall>c \<in> set ds. iswdigit c" by (simp add: list_all_iff)
  from assms(5) have ne: "ds \<noteq> []" by (auto simp: decimal_value_Nil INT_MAX_def)
  then obtain d ds' where ds: "ds = d # ds'" by (cases ds) auto
  with assms(2) digits have first: "iswdigit (at (start t) (buff t))"
    by (simp add: at_drop0 [of "start t"] at_Cons_0)
  from assms(5) have fd: "parsed_fd ds = - 1" by (simp add: parsed_fd_def)
  have m1: "to_string (- 1) = ''-1''" by (simp add: to_string_def decimal.simps)
  have rd: "read_redirection_or_fd_pipe (start t) (buff t)
              = read_redirection_or_fd_pipe (ds @ rest) 0"
    using assms(2) by (simp add: read_redirection_or_fd_pipe_drop [of "start t"])
  note rv = read_redirection_digits [OF digits ne assms(4)]
  have 1: "fst (read_fd_digits (start t) (buff t) 0 0) = length ds"
    using read_fd_digits_run [OF digits assms(4), of "[]" 0 0] assms(2)
    by (simp add: read_fd_digits_drop [of "start t" "buff t"])
  have 2: "snd (snd (read_redirection_or_fd_pipe (start t) (buff t))) = - 1"
    unfolding rd rv using fd by simp
  have 3: "\<exists>consumed kind t'.
            read_redirection_or_fd_pipe (start t) (buff t) = (consumed, kind, - 1)
            \<and> length ds < consumed
            \<and> kind \<in> {TOK_REDIRECT_OUT, TOK_REDIRECT_APPEND, TOK_REDIRECT_IN, TOK_REDIRECT_FD,
                       TOK_REDIRECT_NOCLOB, TOK_PIPE}
            \<and> tokenizer_next t =
                Inr (Some \<lparr>tok_text = ''-1'', tok_type = kind, tok_error = TOK_ERROR_NONE,
                           tok_offset = buff t, tok_length = consumed, tok_error_offset = 0\<rparr>,
                     t')"
    if sigil: "at rest 0 = CHR ''>'' \<or> at rest 0 = CHR ''<''"
  proof -
    obtain consumed kind where
      r: "read_redirection_or_fd_pipe (ds @ rest) 0 = (consumed, kind, - 1)"
        "length ds < consumed"
        "kind \<in> {TOK_REDIRECT_OUT, TOK_REDIRECT_APPEND, TOK_REDIRECT_IN, TOK_REDIRECT_FD,
                  TOK_REDIRECT_NOCLOB, TOK_PIPE}"
      using rv fd sigil by (auto split: if_splits)
    from r(2) have pos: "0 < consumed" by simp
    from r(3) have tn: "tokenizer_next t =
        Inr (Some \<lparr>tok_text = ''-1'', tok_type = kind, tok_error = TOK_ERROR_NONE,
                   tok_offset = buff t, tok_length = consumed, tok_error_offset = 0\<rparr>,
             t\<lparr>continue_line_after_comment := False, last_pos := buff t,
                buff := buff t + consumed, last_type := kind, last_token := ''-1''\<rparr>)"
      using pos by (auto simp: tokenizer_next_def tok_next_digit [OF assms(1) first] rd r(1) m1)
    from rd r(1) have a: "read_redirection_or_fd_pipe (start t) (buff t) = (consumed, kind, - 1)"
      by simp
    show ?thesis
      by (rule exI [where x = consumed], rule exI [where x = kind], rule exI, intro conjI)
        (rule a r(2) r(3) tn)+
  qed
  have 4: "read_redirection_or_fd_pipe (start t) (buff t) = (0, TOK_NONE, - 1)
         \<and> tok_next t =
             returning (read_string (t\<lparr>continue_line_after_comment := False,
                                        last_pos := buff t\<rparr>))"
    if "at rest 0 \<noteq> CHR ''>'' \<and> at rest 0 \<noteq> CHR ''<''"
  proof -
    from that rv fd have "read_redirection_or_fd_pipe (ds @ rest) 0 = (0, TOK_NONE, - 1)"
      by simp
    with rd have a: "read_redirection_or_fd_pipe (start t) (buff t) = (0, TOK_NONE, - 1)"
      by simp
    then show ?thesis
      by (simp add: tok_next_digit [OF assms(1) first])
  qed
  from 1 2 3 4 show ?thesis by blast
qed

theorem overflowing_fd_saturates_witness:
  "has_next (tokenizer_init ''99999999999<'' [])
   \<and> drop (buff (tokenizer_init ''99999999999<'' [])) (start (tokenizer_init ''99999999999<'' []))
       = ''99999999999'' @ ''<''
   \<and> list_all iswdigit ''99999999999'' \<and> \<not> iswdigit (at ''<'' 0)
   \<and> decimal_value ''99999999999'' > INT_MAX
   \<and> fst (read_fd_digits ''99999999999<'' 0 0 0) = length ''99999999999''
   \<and> (\<exists>consumed kind t'.
         read_redirection_or_fd_pipe ''99999999999<'' 0 = (consumed, kind, - 1)
         \<and> length ''99999999999'' < consumed
         \<and> tokenizer_next (tokenizer_init ''99999999999<'' []) =
             Inr (Some \<lparr>tok_text = ''-1'', tok_type = kind, tok_error = TOK_ERROR_NONE,
                        tok_offset = 0, tok_length = consumed, tok_error_offset = 0\<rparr>, t'))"
proof -
  have v: "decimal_value ''99999999999'' > INT_MAX"
    by (simp add: decimal_value_def digit_value_def INT_MAX_def)
  have a: "at ''<'' 0 = CHR ''<''" by (simp add: at_def)
  from overflowing_fd_saturates [of "tokenizer_init ''99999999999<'' []" "''99999999999''" "''<''"] v a
  show ?thesis
    by (simp add: tokenizer_init_def iswdigit_def) blast
qed

section \<open>The string scanner at a trailing backslash and on barewords\<close>


lemma myal_neq: "myal c \<Longrightarrow> \<not> myal k \<Longrightarrow> (c = k) = False"
  by auto


lemma not_myal_NUL: "\<not> myal NUL"
  by (simp add: myal_def)

lemma read_string_switch_NUL:
  assumes "at (start t) (buff t) = NUL"
  shows "\<exists>l'. read_string_switch t buff_start l = Inr (Broke t l') \<and> \<not> do_loop l'"
  using assms
  by (cases "mode l") (simp_all add: read_string_switch_def Let_def tok_is_string_character_def)

lemma read_string_loop_NUL:
  assumes "at (start t) (buff t) = NUL"
  shows "\<exists>l'. read_string_loop t buff_start l = Inr (Broke t l')"
proof -
  from read_string_switch_NUL [OF assms] obtain l' where
    "read_string_switch t buff_start l = Inr (Broke t l')" "\<not> do_loop l'" by blast
  with assms show ?thesis
    by (subst read_string_loop.simps) (simp add: not_myal_NUL)
qed





lemma tok_is_string_character_False:
  "tok_is_string_character c True \<Longrightarrow> tok_is_string_character c b"
  by (simp add: tok_is_string_character_def split: if_splits)















text \<open>At the start of a token, by contrast, \<^verbatim>\<open>#\<close> starts a comment.\<close>

lemma hash_at_token_start:
  assumes "has_next t" "show_comments t" "at (start t) (buff t) = CHR ''#''"
  shows "\<exists>tok t'. tokenizer_next t = Inr (Some tok, t') \<and> tok_type tok = TOK_COMMENT
           \<and> tok_offset tok = buff t"
proof -
  from assms(3) have ws: "skip_whitespace t = t"
    by (subst skip_whitespace.simps) (simp add: iswspace_not_nl_def iswspace_def)
  from assms(2,3) have "\<exists>t'. skip_comments t = (t', True) \<and> last_type t' = TOK_COMMENT
      \<and> last_pos t' = buff t"
    by (subst skip_comments.simps) (simp add: Let_def)
  then obtain t' where "skip_comments t = (t', True)" "last_type t' = TOK_COMMENT"
    "last_pos t' = buff t" by blast
  with assms(1) ws show ?thesis
    by (simp add: tokenizer_next_def tok_next_def Let_def)
qed

section \<open>The cursor stays in the buffer\<close>


lemma advanced_refl: "advanced t t"
  unfolding advanced_def by (rule exI [of _ "buff t"]) simp

lemma advanced_trans: "advanced t t1 \<Longrightarrow> advanced t1 t2 \<Longrightarrow> advanced t t2"
  by (auto simp: advanced_def)

lemma advanced_to:
  "buff t \<le> b \<Longrightarrow> (buff t \<le> length (start t) \<Longrightarrow> b \<le> length (start t))
     \<Longrightarrow> advanced t (t\<lparr>buff := b\<rparr>)"
  by (auto simp: advanced_def)

lemma advanced_Suc: "at (start t) (buff t) \<noteq> NUL \<Longrightarrow> advanced t (t\<lparr>buff := Suc (buff t)\<rparr>)"
  by (rule advanced_to) (auto dest: at_not_NUL_less)

lemma advanced_fields:
  assumes "advanced t t'"
  shows "start t' = start t" "buff t \<le> buff t'"
    "buff t \<le> length (start t) \<Longrightarrow> buff t' \<le> length (start t)"
    "last_pos t' = last_pos t" "last_token t' = last_token t" "last_type t' = last_type t"
    "has_next t' = has_next t" "squash_errors t' = squash_errors t"
    "accept_unfinished t' = accept_unfinished t" "show_comments t' = show_comments t"
    "show_blank_lines t' = show_blank_lines t"
  using assms by (auto simp: advanced_def)

lemma errored_trans: "advanced t t1 \<Longrightarrow> errored t1 t2 \<Longrightarrow> errored t t2"
  unfolding errored_def by (blast intro: advanced_trans)

lemma erroredI:
  "advanced t t1 \<Longrightarrow> call_error t1 e w = Inr t' \<Longrightarrow> e \<noteq> TOK_ERROR_NONE \<Longrightarrow> errored t t'"
  unfolding errored_def by blast

lemma call_error_text:
  assumes "call_error t e w = Inr t'"
  shows "\<exists>msg. error_message e = Inr msg \<and> last_token t' = (if squash_errors t then [] else msg)"
  using assms by (cases e) (auto simp: call_error_def Let_def split: if_splits)

lemma errored_fields:
  assumes "errored t t'"
  shows "start t' = start t" "buff t \<le> buff t'"
    "buff t \<le> length (start t) \<Longrightarrow> buff t' \<le> length (start t)"
    "last_pos t' = last_pos t" "last_type t' = TOK_ERROR" "\<not> has_next t'"
    "squash_errors t' = squash_errors t"
    "\<exists>msg. error_message (error t') = Inr msg
        \<and> last_token t' = (if squash_errors t then [] else msg)"
proof -
  from assms obtain t1 e w where a: "advanced t t1" and c: "call_error t1 e w = Inr t'"
    unfolding errored_def by blast
  note f = advanced_fields [OF a] and g = call_error_fields [OF c]
  show "start t' = start t" "buff t \<le> buff t'" "last_pos t' = last_pos t"
    "last_type t' = TOK_ERROR" "\<not> has_next t'" "squash_errors t' = squash_errors t"
    using f g by simp_all
  show "buff t' \<le> length (start t)" if "buff t \<le> length (start t)"
    using f(3) [OF that] g by simp
  from call_error_text [OF c] g f(8)
  show "\<exists>msg. error_message (error t') = Inr msg
        \<and> last_token t' = (if squash_errors t then [] else msg)"
    by simp
qed

lemma wcslen_le: "wcslen s i \<le> length s - i"
  unfolding wcslen_def by (rule order_trans [OF length_takeWhile_le]) simp

lemma read_string_quote_advanced:
  "read_string_quote t l = Inr r \<Longrightarrow>
     (case r of Broke t' l' \<Rightarrow> advanced t t' | Returned t' \<Rightarrow> errored t t')"
proof (cases "quote_end (start t) (buff t)")
  case (Some e)
  assume "read_string_quote t l = Inr r"
  with Some have r: "r = Broke (t\<lparr>buff := e\<rparr>) l"
    by (simp add: read_string_quote_def)
  from Some have "buff t < e" "e < length (start t)"
    by (auto simp: quote_end_def dest: quote_end_loop_bounds)
  then have "advanced t (t\<lparr>buff := e\<rparr>)" by (intro advanced_to) simp_all
  with r show ?thesis by simp
next
  case None
  define t1 where "t1 = t\<lparr>buff := buff t + wcslen (start t) (buff t)\<rparr>"
  have a: "advanced t t1"
    unfolding t1_def using wcslen_le [of "start t" "buff t"] by (intro advanced_to) simp_all
  assume "read_string_quote t l = Inr r"
  with None have
    "(\<not> accept_unfinished t \<and> (\<exists>t'. call_error t1 TOK_UNTERMINATED_QUOTE (buff t) = Inr t'
         \<and> r = Returned t'))
     \<or> (accept_unfinished t \<and> r = Broke t1 (l\<lparr>do_loop := False\<rparr>))"
    by (auto simp: read_string_quote_def Let_def t1_def split: if_splits sum.splits)
  with a show ?thesis by (auto intro: erroredI)
qed

lemma read_string_switch_advanced:
  assumes "read_string_switch t buff_start l = Inr r"
  shows "case r of Broke t' l' \<Rightarrow> advanced t t' | Returned t' \<Rightarrow> errored t t'"
proof (cases "read_string_switch t buff_start l = read_string_quote t l")
  case True
  with assms show ?thesis by (simp add: read_string_quote_advanced)
next
  case False
  with assms have "\<exists>l'. r = Broke t l'"
    by (cases "mode l")
      (auto simp: read_string_switch_def Let_def split: if_splits)
  then show ?thesis by (auto simp: advanced_refl)
qed


lemma myal_not_NUL: "myal c \<Longrightarrow> c \<noteq> NUL"
  using not_myal_NUL by auto

lemma read_string_loop_advanced:
  "read_string_loop t buff_start l = Inr r \<Longrightarrow>
     (case r of Broke t' l' \<Rightarrow> advanced t t' | Returned t' \<Rightarrow> errored t t')"
proof (induction t buff_start l arbitrary: r rule: read_string_loop.induct)
  case (1 t buff_start l)
  note loop = "1.prems"
  show ?case
  proof (cases "myal (at (start t) (buff t))")
    case True
    then have step: "advanced t (t\<lparr>buff := buff t + 1\<rparr>)"
      using advanced_Suc [of t] by (auto dest: myal_not_NUL)
    show ?thesis
    proof (cases "do_loop l")
      case False
      with True loop have "r = Broke t l"
        by (subst (asm) read_string_loop.simps) simp
      then show ?thesis by (simp add: advanced_refl)
    next
      case dl: True
      with True loop have
        "read_string_loop (t\<lparr>buff := buff t + 1\<rparr>) buff_start (l\<lparr>is_first := False\<rparr>) = Inr r"
        by (subst (asm) read_string_loop.simps) simp
      from "1.IH"(4) [OF _ _ this] True dl
      have "case r of Broke t' l' \<Rightarrow> advanced (t\<lparr>buff := buff t + 1\<rparr>) t'
            | Returned t' \<Rightarrow> errored (t\<lparr>buff := buff t + 1\<rparr>) t'"
        by simp
      with step show ?thesis
        by (auto split: loop_exit.splits intro: advanced_trans errored_trans)
    qed
  next
    case nm: False
    show ?thesis
    proof (cases "at (start t) (buff t) = BACKSLASH")
      case True
      define t1 where "t1 = t\<lparr>buff := buff t + 1\<rparr>"
      from True have step: "advanced t t1"
        unfolding t1_def using advanced_Suc [of t] by simp
      show ?thesis
      proof (cases "at (start t) (buff t + 1) = NUL")
        case eof: True
        show ?thesis
        proof (cases "accept_unfinished t")
          case False
          with nm True eof loop have
            "\<exists>t'. call_error t1 TOK_UNTERMINATED_ESCAPE (buff t) = Inr t' \<and> r = Returned t'"
            by (subst (asm) read_string_loop.simps)
              (auto simp: Let_def t1_def split: sum.splits)
          with step show ?thesis by (auto intro: erroredI)
        next
          case au: True
          with nm True eof loop have
            "read_string_loop t1 buff_start (l\<lparr>do_loop := False\<rparr>) = Inr r"
            by (subst (asm) read_string_loop.simps) (simp add: Let_def t1_def)
          moreover have "at (start t1) (buff t1) = NUL"
            using eof by (simp add: t1_def)
          ultimately have "r = Broke t1 (l\<lparr>do_loop := False\<rparr>) \<or> (\<exists>l'. r = Broke t1 l')"
            using read_string_loop_NUL [of t1 buff_start "l\<lparr>do_loop := False\<rparr>"] by auto
          with step show ?thesis by auto
        qed
      next
        case ne: False
        with nm True loop have rec:
          "read_string_loop (t1\<lparr>buff := buff t1 + 1\<rparr>) buff_start l = Inr r"
          by (subst (asm) read_string_loop.simps) (simp add: Let_def t1_def)
        from ne have "at (start t1) (buff t1) \<noteq> NUL" by (simp add: t1_def)
        then have step2: "advanced t1 (t1\<lparr>buff := buff t1 + 1\<rparr>)"
          using advanced_Suc [of t1] by simp
        from "1.IH"(2) [OF nm True refl t1_def _ rec] ne
        have "case r of Broke t' l' \<Rightarrow> advanced (t1\<lparr>buff := buff t1 + 1\<rparr>) t'
              | Returned t' \<Rightarrow> errored (t1\<lparr>buff := buff t1 + 1\<rparr>) t'"
          by (simp add: t1_def)
        with advanced_trans [OF step step2] show ?thesis
          by (auto split: loop_exit.splits intro: advanced_trans errored_trans)
      qed
    next
      case nb: False
      from nm nb loop obtain b where
        sw: "read_string_switch t buff_start l = Inr b"
        by (subst (asm) read_string_loop.simps) (auto split: sum.splits)
      note swa = read_string_switch_advanced [OF sw]
      show ?thesis
      proof (cases b)
        case (Returned t')
        with nm nb loop sw have "r = Returned t'"
          by (subst (asm) read_string_loop.simps) simp
        with swa Returned show ?thesis by simp
      next
        case (Broke t' l')
        with swa have adv: "advanced t t'" by simp
        show ?thesis
        proof (cases "do_loop l'")
          case False
          with nm nb loop sw Broke have "r = Broke t' l'"
            by (subst (asm) read_string_loop.simps) simp
          with adv show ?thesis by simp
        next
          case dl: True
          with nm nb loop sw Broke have rec:
            "read_string_loop (t'\<lparr>buff := buff t' + 1\<rparr>) buff_start (l'\<lparr>is_first := False\<rparr>)
               = Inr r"
            by (subst (asm) read_string_loop.simps) simp
          from read_string_switch_Broke [OF sw [unfolded Broke] dl]
          have "buff t' < length (start t')" by simp
          then have step2: "advanced t' (t'\<lparr>buff := buff t' + 1\<rparr>)"
            by (intro advanced_to) simp_all
          from "1.IH"(3) [OF nm nb sw Broke _ rec] dl
          have "case r of Broke t'' l'' \<Rightarrow> advanced (t'\<lparr>buff := buff t' + 1\<rparr>) t''
                | Returned t'' \<Rightarrow> errored (t'\<lparr>buff := buff t' + 1\<rparr>) t''"
            by simp
          with advanced_trans [OF adv step2] show ?thesis
            by (auto split: loop_exit.splits intro: advanced_trans errored_trans)
        qed
      qed
    qed
  qed
qed

lemma read_string_finish_cases:
  assumes "read_string_finish t buff_start l = Inr t'"
  shows "errored t t'
     \<or> t' = t\<lparr>last_token := slice (start t) buff_start (buff t - buff_start),
               last_type := TOK_STRING\<rparr>"
  using assms advanced_refl [of t]
  by (cases "mode l")
    (auto simp: read_string_finish_def Let_def split: if_splits intro: erroredI)

lemma read_string_cases:
  assumes "read_string t = Inr t'"
  shows "errored t t'
     \<or> (\<exists>t1. advanced t t1
           \<and> t' = t1\<lparr>last_token := slice (start t) (buff t) (buff t1 - buff t),
                      last_type := TOK_STRING\<rparr>)"
proof -
  from assms obtain r where loop: "read_string_loop t (buff t) read_string_locals_init = Inr r"
    by (auto simp: read_string_def read_string_from_def Let_def split: sum.splits)
  note la = read_string_loop_advanced [OF loop]
  show ?thesis
  proof (cases r)
    case (Returned t1)
    with assms loop have "t' = t1"
      by (simp add: read_string_def read_string_from_def Let_def)
    with la Returned show ?thesis by simp
  next
    case (Broke t1 l1)
    with la have adv: "advanced t t1" by simp
    from Broke assms loop have "read_string_finish t1 (buff t) l1 = Inr t'"
      by (simp add: read_string_def read_string_from_def Let_def)
    from read_string_finish_cases [OF this] adv advanced_fields(1) [OF adv]
    show ?thesis by (auto intro: errored_trans)
  qed
qed


lemma at_not_NUL_Suc_le: "at s i \<noteq> NUL \<Longrightarrow> Suc i \<le> length s"
  by (drule at_not_NUL_less) simp

lemma iswspace_not_nl_Suc_le: "iswspace_not_nl (at s i) \<Longrightarrow> Suc i \<le> length s"
  by (drule iswspace_not_nl_at_less) simp

lemma skip_comment_le: "b \<le> length s \<Longrightarrow> skip_comment s b \<le> length s"
proof (induction s b rule: skip_comment.induct)
  case (1 s b)
  then show ?case
    by (subst skip_comment.simps) (auto intro: at_not_NUL_Suc_le)
qed

lemma skip_blanks_le: "b \<le> length s \<Longrightarrow> skip_blanks s b \<le> length s"
proof (induction s b rule: skip_blanks.induct)
  case (1 s b)
  then show ?case
    by (subst skip_blanks.simps) (auto intro: iswspace_not_nl_Suc_le)
qed

lemma skip_newlines_ge: "b \<le> skip_newlines s b"
proof (induction s b rule: skip_newlines.induct)
  case (1 s b)
  then show ?case
    by (subst skip_newlines.simps) auto
qed

lemma skip_newlines_le: "b \<le> length s \<Longrightarrow> skip_newlines s b \<le> length s"
proof (induction s b rule: skip_newlines.induct)
  case (1 s b)
  show ?case
  proof (cases "at s b = NL \<or> at s b = CR \<or> at s b = CHR '' '' \<or> at s b = TAB")
    case True
    then have "at s b \<noteq> NUL" by auto
    then have "b + 1 \<le> length s" using at_not_NUL_Suc_le [of s b] by simp
    with True "1.IH" show ?thesis
      by (subst skip_newlines.simps) simp
  next
    case False
    with "1.prems" show ?thesis
      by (subst skip_newlines.simps) simp
  qed
qed

lemma skip_whitespace_advanced:
  "\<exists>t1 c. advanced t t1 \<and> skip_whitespace t = t1\<lparr>continue_line_after_comment := c\<rparr>"
proof (induction t rule: skip_whitespace.induct)
  case (1 t)
  show ?case
  proof (cases "at (start t) (buff t) = BACKSLASH \<and> at (start t) (buff t + 1) = NL")
    case True
    define t' where "t' = t\<lparr>buff := buff t + 2, continue_line_after_comment := True\<rparr>"
    from "1.IH"(1) [OF True] obtain t1 c where
      ih: "advanced t' t1" "skip_whitespace t' = t1\<lparr>continue_line_after_comment := c\<rparr>"
      unfolding t'_def by blast
    from ih(1) obtain b where b: "t1 = t'\<lparr>buff := b\<rparr>" "buff t' \<le> b"
      "buff t' \<le> length (start t') \<longrightarrow> b \<le> length (start t')"
      unfolding advanced_def by blast
    from True have "buff t + 1 < length (start t)" by (auto dest: at_eq_cases)
    with b have "advanced t (t\<lparr>buff := b\<rparr>)"
      by (intro advanced_to) (simp_all add: t'_def)
    moreover from True ih(2) b(1) have "skip_whitespace t = (t\<lparr>buff := b\<rparr>)\<lparr>continue_line_after_comment := c\<rparr>"
      by (subst skip_whitespace.simps) (simp add: t'_def)
    ultimately show ?thesis by blast
  next
    case False
    show ?thesis
    proof (cases "iswspace_not_nl (at (start t) (buff t))")
      case ws: True
      define t' where "t' = t\<lparr>buff := buff t + 1\<rparr>"
      from "1.IH"(2) [OF False ws] obtain t1 c where
        ih: "advanced t' t1" "skip_whitespace t' = t1\<lparr>continue_line_after_comment := c\<rparr>"
        unfolding t'_def by blast
      from ws have "buff t < length (start t)" by (rule iswspace_not_nl_at_less)
      then have "advanced t t'" unfolding t'_def by (intro advanced_to) simp_all
      from this ih(1) have "advanced t t1" by (rule advanced_trans)
      moreover from False ws ih(2) have "skip_whitespace t = t1\<lparr>continue_line_after_comment := c\<rparr>"
        by (subst skip_whitespace.simps) (auto simp: t'_def)
      ultimately show ?thesis by blast
    next
      case nws: False
      with False have "skip_whitespace t = t"
        by (subst skip_whitespace.simps) auto
      then have "skip_whitespace t = t\<lparr>continue_line_after_comment := continue_line_after_comment t\<rparr>"
        by simp
      with advanced_refl [of t] show ?thesis by blast
    qed
  qed
qed

lemma read_fd_digits_bound:
  "read_fd_digits s b idx acc = (idx', v) \<Longrightarrow> b + idx \<le> length s \<Longrightarrow> b + idx' \<le> length s"
proof (induction s b idx acc rule: read_fd_digits.induct)
  case (1 s b idx big_fd)
  show ?case
  proof (cases "iswdigit (at s (b + idx))")
    case True
    then have "b + idx < length s" by (rule iswdigit_at_less)
    moreover from True "1.prems"(1) have
      "read_fd_digits s b (idx + 1) (fd_step big_fd (at s (b + idx))) = (idx', v)"
      by (subst (asm) read_fd_digits_unfold) simp
    ultimately show ?thesis
      using "1.IH" [OF True] by (simp add: fd_step_def)
  next
    case False
    with "1.prems" show ?thesis
      by (subst (asm) read_fd_digits_unfold) simp
  qed
qed

section \<open>The token that the driver holds\<close>


lemma skip_comments_cases:
  "skip_comments t = (t', flag) \<Longrightarrow>
     (\<not> flag \<and> advanced t t')
     \<or> (flag \<and> (\<exists>t1 cs len. advanced t t1 \<and> buff t \<le> cs
              \<and> (buff t1 = cs + len \<or> buff t1 = cs + len + 1 \<and> at (start t) (cs + len) = NL)
              \<and> t' = t1\<lparr>last_pos := cs, last_token := slice (start t) cs len,
                         last_type := TOK_COMMENT\<rparr>))"
proof (induction t arbitrary: t' flag rule: skip_comments.induct)
  case (1 t)
  show ?case
  proof (cases "at (start t) (buff t) = CHR ''#''")
    case False
    then have "skip_comments t = (t, False)"
      by (subst skip_comments.simps) simp
    with "1.prems" have "t' = t" "\<not> flag"
      by simp_all
    with advanced_refl [of t] show ?thesis by simp
  next
    case True
    define ta where "ta = t\<lparr>buff := skip_comment (start t) (buff t)\<rparr>"
    define tb where "tb = (if at (start ta) (buff ta) = NL \<and> continue_line_after_comment ta
                           then ta\<lparr>buff := buff ta + 1\<rparr> else ta)"
    have a: "advanced t ta"
      unfolding ta_def using skip_comment_ge [of "buff t" "start t"] skip_comment_le [of "buff t" "start t"]
      by (intro advanced_to) simp_all
    have b: "advanced ta tb"
    proof (cases "at (start ta) (buff ta) = NL \<and> continue_line_after_comment ta")
      case True
      then have "at (start ta) (buff ta) \<noteq> NUL" by simp
      from advanced_Suc [OF this] True show ?thesis by (simp add: tb_def)
    next
      case False
      then show ?thesis by (auto simp: tb_def advanced_refl)
    qed
    note ab = advanced_trans [OF a b]
    have len: "buff tb = buff t + (buff ta - buff t)
        \<or> buff tb = buff t + (buff ta - buff t) + 1
            \<and> at (start t) (buff t + (buff ta - buff t)) = NL"
      using advanced_fields(2) [OF a] advanced_fields(1) [OF a] by (auto simp: tb_def)
    define tc where "tc = tb\<lparr>buff := skip_blanks (start tb) (buff tb)\<rparr>"
    have eq: "skip_comments t =
        (if show_comments tb then
           (tb\<lparr>last_pos := buff t, last_token := slice (start tb) (buff t) (buff ta - buff t),
               last_type := TOK_COMMENT\<rparr>, True)
         else skip_comments tc)"
      unfolding tc_def tb_def ta_def using True
      by (subst skip_comments.simps) (simp add: Let_def)
    show ?thesis
    proof (cases "show_comments tb")
      case sc: True
      with eq "1.prems" have "flag"
        and "t' = tb\<lparr>last_pos := buff t, last_token := slice (start tb) (buff t) (buff ta - buff t),
                      last_type := TOK_COMMENT\<rparr>"
        by simp_all
      with advanced_fields(1) [OF ab]
      have "t' = tb\<lparr>last_pos := buff t, last_token := slice (start t) (buff t) (buff ta - buff t),
                      last_type := TOK_COMMENT\<rparr>" by simp
      with ab len have "\<exists>t1 cs len. advanced t t1 \<and> buff t \<le> cs
              \<and> (buff t1 = cs + len \<or> buff t1 = cs + len + 1 \<and> at (start t) (cs + len) = NL)
              \<and> t' = t1\<lparr>last_pos := cs, last_token := slice (start t) cs len,
                         last_type := TOK_COMMENT\<rparr>"
        by (intro exI [of _ tb] exI [of _ "buff t"] exI [of _ "buff ta - buff t"]) simp
      with \<open>flag\<close> show ?thesis by simp
    next
      case nsc: False
      have c: "advanced tb tc"
        unfolding tc_def using skip_blanks_ge [of "buff tb" "start tb"] skip_blanks_le [of "buff tb" "start tb"]
        by (intro advanced_to) simp_all
      note ac = advanced_trans [OF ab c]
      from eq nsc "1.prems" have rec: "skip_comments tc = (t', flag)"
        by simp
      from "1.IH" [OF True refl ta_def refl tb_def nsc rec [unfolded tc_def]]
      have ih: "(\<not> flag \<and> advanced tc t')
         \<or> (flag \<and> (\<exists>t1 cs len. advanced tc t1 \<and> buff tc \<le> cs
              \<and> (buff t1 = cs + len \<or> buff t1 = cs + len + 1 \<and> at (start tc) (cs + len) = NL)
              \<and> t' = t1\<lparr>last_pos := cs, last_token := slice (start tc) cs len,
                         last_type := TOK_COMMENT\<rparr>))"
        by (simp add: tc_def)
      show ?thesis
      proof (cases flag)
        case False
        with ih have "advanced tc t'" by simp
        with ac have "advanced t t'" by (rule advanced_trans)
        with False show ?thesis by simp
      next
        case fl: True
        with ih obtain t1 cs len where
          r: "advanced tc t1" "buff tc \<le> cs"
            "buff t1 = cs + len \<or> buff t1 = cs + len + 1 \<and> at (start tc) (cs + len) = NL"
            "t' = t1\<lparr>last_pos := cs, last_token := slice (start tc) cs len,
                       last_type := TOK_COMMENT\<rparr>"
          by blast
        from r(3) advanced_fields(1) [OF ac]
        have a3: "buff t1 = cs + len \<or> buff t1 = cs + len + 1 \<and> at (start t) (cs + len) = NL"
          by simp
        from ac r(1) have a1: "advanced t t1" by (rule advanced_trans)
        from advanced_fields(2) [OF ac] r(2) have a2: "buff t \<le> cs" by simp
        from r(4) advanced_fields(1) [OF ac]
        have a4: "t' = t1\<lparr>last_pos := cs, last_token := slice (start t) cs len,
                            last_type := TOK_COMMENT\<rparr>" by simp
        have "\<exists>t1 cs len. advanced t t1 \<and> buff t \<le> cs
              \<and> (buff t1 = cs + len \<or> buff t1 = cs + len + 1 \<and> at (start t) (cs + len) = NL)
              \<and> t' = t1\<lparr>last_pos := cs, last_token := slice (start t) cs len,
                         last_type := TOK_COMMENT\<rparr>"
          by (rule exI [of _ t1], rule exI [of _ cs], rule exI [of _ len], intro conjI)
            (rule a1 a2 a3 a4)+
        with fl show ?thesis by simp
      qed
    qed
  qed
qed


lemma at_eq_Suc_le: "at s i = c \<Longrightarrow> c \<noteq> NUL \<Longrightarrow> Suc i \<le> length s"
  using at_not_NUL_Suc_le [of s i] by simp

lemma read_redirection_or_fd_pipe_props:
  assumes "read_redirection_or_fd_pipe s b = (consumed, kind, fd)" "b \<le> length s"
  shows "b + consumed \<le> length s"
    and "kind \<in> {TOK_NONE, TOK_PIPE, TOK_REDIRECT_OUT, TOK_REDIRECT_APPEND, TOK_REDIRECT_IN,
                  TOK_REDIRECT_FD, TOK_REDIRECT_NOCLOB}"
    and "0 < consumed \<Longrightarrow> kind \<noteq> TOK_NONE"
proof -
  obtain idx big_fd where d: "read_fd_digits s b 0 0 = (idx, big_fd)"
    by (cases "read_fd_digits s b 0 0")
  from read_fd_digits_bound [OF d] assms(2) have i0: "b + idx \<le> length s" by simp
  define c0 where "c0 = at s (b + idx)"
  define c1 where "c1 = at s (b + idx + 1)"
  define c2 where "c2 = at s (b + idx + 2)"
  have i1: "b + idx + 1 \<le> length s" if "c0 \<noteq> NUL"
    using that at_not_NUL_Suc_le [of s "b + idx"] by (simp add: c0_def)
  have i2: "b + idx + 2 \<le> length s" if "c1 \<noteq> NUL"
    using that at_not_NUL_Suc_le [of s "b + idx + 1"] by (simp add: c1_def)
  have i3: "b + idx + 3 \<le> length s" if "c2 \<noteq> NUL"
    using that at_not_NUL_Suc_le [of s "b + idx + 2"] by (simp add: c2_def)
  have r: "(consumed, kind) \<in>
      {(0, TOK_NONE)} \<union>
      (if c0 = CHR ''>'' \<or> c0 = CHR ''^'' then
         (if c1 = c0 then
            (if c2 = CHR ''&'' then {(idx + 3, TOK_REDIRECT_FD)}
             else if c2 = CHR ''?'' then {(idx + 3, TOK_REDIRECT_NOCLOB)}
             else if c2 = CHR ''|'' then {(idx + 3, TOK_PIPE)}
             else {(idx + 2, TOK_REDIRECT_APPEND)})
          else
            (if c1 = CHR ''&'' then {(idx + 2, TOK_REDIRECT_FD)}
             else if c1 = CHR ''?'' then {(idx + 2, TOK_REDIRECT_NOCLOB)}
             else if c1 = CHR ''|'' then {(idx + 2, TOK_PIPE)}
             else {(idx + 1, TOK_REDIRECT_OUT)}))
       else if c0 = CHR ''<'' then
         (if c1 = CHR ''&'' then {(idx + 2, TOK_REDIRECT_FD)}
          else if c1 = CHR ''?'' then {(idx + 2, TOK_REDIRECT_NOCLOB)}
          else if c1 = CHR ''|'' then {(idx + 2, TOK_PIPE)}
          else {(idx + 1, TOK_REDIRECT_IN)})
       else {})"
    using assms(1)
    unfolding read_redirection_or_fd_pipe_def d c0_def c1_def c2_def
    by (simp add: Let_def add.assoc split: if_splits)
  show "b + consumed \<le> length s"
    using r i0 i1 i2 i3 assms(2) by (auto split: if_splits)
  show "kind \<in> {TOK_NONE, TOK_PIPE, TOK_REDIRECT_OUT, TOK_REDIRECT_APPEND, TOK_REDIRECT_IN,
                  TOK_REDIRECT_FD, TOK_REDIRECT_NOCLOB}"
    using r by (auto split: if_splits)
  show "kind \<noteq> TOK_NONE" if "0 < consumed"
    using r that by (auto split: if_splits)
qed


lemma token_ok_errored:
  assumes "errored t t'" "buff t \<le> length (start t)" "last_pos t \<le> buff t"
  shows "token_ok t'"
proof -
  note f = errored_fields [OF assms(1)]
  from f(3) [OF assms(2)] f(1) have "buff t' \<le> length (start t')" by simp
  moreover from f(2,4) assms(3) have "last_pos t' \<le> buff t'" by simp
  moreover from f(8) f(7) have "\<exists>msg. error_message (error t') = Inr msg
      \<and> last_token t' = (if squash_errors t' then [] else msg)" by simp
  ultimately show ?thesis
    using f(5,6) by (simp add: token_ok_def)
qed

lemma token_ok_fd:
  assumes "kind \<in> {TOK_PIPE, TOK_REDIRECT_OUT, TOK_REDIRECT_APPEND, TOK_REDIRECT_IN,
                     TOK_REDIRECT_FD, TOK_REDIRECT_NOCLOB}"
    and "buff t + consumed \<le> length (start t)" "last_pos t = buff t"
    and "at (start t) (buff t) \<noteq> CHR ''|''"
    and "read_redirection_or_fd_pipe (start t) (buff t) = (consumed, kind, fd)"
  shows "token_ok (t\<lparr>buff := buff t + consumed, last_type := kind, last_token := to_string fd\<rparr>)"
  using assms by (auto simp: token_ok_def)

lemma to_string_1: "to_string 1 = ''1''"
  by (simp add: to_string_def decimal.simps)

lemma tok_next_switch_ok:
  assumes "tok_next_switch t = Inr (flag, t')" "buff t \<le> length (start t)" "last_pos t = buff t"
  shows "start t' = start t \<and> squash_errors t' = squash_errors t
     \<and> buff t' \<le> length (start t) \<and> (if flag then token_ok t' else \<not> has_next t')"
proof -
  define c where "c = at (start t) (buff t)"
  consider (nul) "c = NUL" | (endc) "c = CR \<or> c = NL \<or> c = CHR '';''" | (bg) "c = CHR ''&''"
    | (pipe) "c = CHR ''|''" | (redir) "c = CHR ''>'' \<or> c = CHR ''<'' \<or> c = CHR ''^''"
    | (other) "c \<noteq> NUL" "c \<noteq> CR" "c \<noteq> NL" "c \<noteq> CHR '';''" "c \<noteq> CHR ''&''" "c \<noteq> CHR ''|''"
        "c \<noteq> CHR ''>''" "c \<noteq> CHR ''<''" "c \<noteq> CHR ''^''"
    by blast
  then show ?thesis
  proof cases
    case nul
    with assms(1) have "flag = False"
      "t' = t\<lparr>last_type := TOK_END, has_next := False, last_token := []\<rparr>"
      by (simp_all add: tok_next_switch_def c_def)
    with assms(2) show ?thesis by simp
  next
    case endc
    then have ne: "c \<noteq> NUL" by auto
    then have le: "buff t + 1 \<le> length (start t)"
      using at_not_NUL_Suc_le [of "start t" "buff t"] by (simp add: c_def)
    define b where "b = (if \<not> show_blank_lines t then skip_newlines (start t) (buff t + 1)
                         else buff t + 1)"
    from le have b: "buff t < b" "b \<le> length (start t)"
      using skip_newlines_ge [of "buff t + 1" "start t"] skip_newlines_le [of "buff t + 1" "start t"]
      by (auto simp: b_def)
    from endc ne assms(1) have "flag"
      "t' = t\<lparr>last_type := TOK_END, last_token := [c], buff := b\<rparr>"
      by (auto simp: tok_next_switch_def c_def [symmetric] b_def Let_def)
    with b assms(3) show ?thesis
      by (simp add: token_ok_def c_def)
  next
    case bg
    then have "buff t + 1 \<le> length (start t)"
      using at_not_NUL_Suc_le [of "start t" "buff t"] by (simp add: c_def)
    moreover from bg assms(1) have "flag"
      "t' = t\<lparr>last_type := TOK_BACKGROUND, buff := buff t + 1\<rparr>"
      by (simp_all add: tok_next_switch_def c_def [symmetric])
    ultimately show ?thesis
      using assms(3) by (simp add: token_ok_def)
  next
    case pipe
    then have "buff t + 1 \<le> length (start t)"
      using at_not_NUL_Suc_le [of "start t" "buff t"] by (simp add: c_def)
    moreover from pipe assms(1) have "flag"
      "t' = t\<lparr>last_token := ''1'', last_type := TOK_PIPE, buff := buff t + 1\<rparr>"
      by (simp_all add: tok_next_switch_def c_def [symmetric])
    ultimately show ?thesis
      using assms(3) pipe [unfolded c_def] by (simp add: token_ok_def)
  next
    case redir
    obtain consumed kind fd where
      rd: "read_redirection_or_fd_pipe (start t) (buff t) = (consumed, kind, fd)"
      by (cases "read_redirection_or_fd_pipe (start t) (buff t)")
    note p = read_redirection_or_fd_pipe_props [OF rd assms(2)]
    from redir have np: "at (start t) (buff t) \<noteq> CHR ''|''" by (auto simp: c_def)
    show ?thesis
    proof (cases "consumed = 0 \<or> fd < 0")
      case True
      with redir assms(1) rd have "flag"
        and ce: "call_error t TOK_INVALID_REDIRECT (buff t) = Inr t'"
        by (auto simp: tok_next_switch_def c_def [symmetric] returning_def split: sum.splits)
      have e: "errored t t'" by (rule erroredI [OF advanced_refl ce]) simp
      from token_ok_errored [OF e assms(2)] errored_fields(1,3,7) [OF e] assms(2,3) \<open>flag\<close>
      show ?thesis by simp
    next
      case False
      with redir assms(1) rd have "flag"
        and t': "t' = t\<lparr>buff := buff t + consumed, last_type := kind, last_token := to_string fd\<rparr>"
        by (auto simp: tok_next_switch_def c_def [symmetric])
      from False p(2,3) have "kind \<in> {TOK_PIPE, TOK_REDIRECT_OUT, TOK_REDIRECT_APPEND,
          TOK_REDIRECT_IN, TOK_REDIRECT_FD, TOK_REDIRECT_NOCLOB}" by auto
      from token_ok_fd [OF this p(1) assms(3) np rd] t' \<open>flag\<close> p(1) show ?thesis
        by simp
    qed
  next
    case other
    from other have np: "at (start t) (buff t) \<noteq> CHR ''|''" by (simp add: c_def)
    obtain consumed kind fd where
      rd: "(if iswdigit c then read_redirection_or_fd_pipe (start t) (buff t)
            else (0, TOK_NONE, - 1)) = (consumed, kind, fd)"
      by (cases "if iswdigit c then read_redirection_or_fd_pipe (start t) (buff t)
            else (0, TOK_NONE, - 1)")
    have eq: "tok_next_switch t =
        (if consumed > 0 then
           if kind = TOK_PIPE \<and> fd = 0 then returning (call_error t TOK_INVALID_PIPE (buff t))
           else Inr (True, t\<lparr>buff := buff t + consumed, last_type := kind,
                             last_token := to_string fd\<rparr>)
         else returning (read_string t))"
      using other rd by (simp add: tok_next_switch_def c_def [symmetric] Let_def)
    show ?thesis
    proof (cases "consumed > 0")
      case True
      with rd have rd': "read_redirection_or_fd_pipe (start t) (buff t) = (consumed, kind, fd)"
        by (auto split: if_splits)
      note p = read_redirection_or_fd_pipe_props [OF rd' assms(2)]
      show ?thesis
      proof (cases "kind = TOK_PIPE \<and> fd = 0")
        case pz: True
        with True eq assms(1) have "flag"
          and ce: "call_error t TOK_INVALID_PIPE (buff t) = Inr t'"
          by (auto simp: returning_def split: sum.splits)
        have e: "errored t t'" by (rule erroredI [OF advanced_refl ce]) simp
        from token_ok_errored [OF e assms(2)] errored_fields(1,3,7) [OF e] assms(2,3) \<open>flag\<close>
        show ?thesis by simp
      next
        case False
        with True eq assms(1) have "flag"
          and t': "t' = t\<lparr>buff := buff t + consumed, last_type := kind, last_token := to_string fd\<rparr>"
          by auto
        from True p(2,3) have "kind \<in> {TOK_PIPE, TOK_REDIRECT_OUT, TOK_REDIRECT_APPEND,
            TOK_REDIRECT_IN, TOK_REDIRECT_FD, TOK_REDIRECT_NOCLOB}" by auto
        from token_ok_fd [OF this p(1) assms(3) np rd'] t' \<open>flag\<close> p(1) show ?thesis
          by simp
      qed
    next
      case False
      with eq assms(1) have "flag" and rs: "read_string t = Inr t'"
        by (auto simp: returning_def split: sum.splits)
      from read_string_cases [OF rs] show ?thesis
      proof
        assume e: "errored t t'"
        from token_ok_errored [OF e assms(2)] errored_fields(1,3,7) [OF e] assms(2,3) \<open>flag\<close>
        show ?thesis by simp
      next
        assume "\<exists>t1. advanced t t1
           \<and> t' = t1\<lparr>last_token := slice (start t) (buff t) (buff t1 - buff t),
                      last_type := TOK_STRING\<rparr>"
        then obtain t1 where a: "advanced t t1"
          and t': "t' = t1\<lparr>last_token := slice (start t) (buff t) (buff t1 - buff t),
                      last_type := TOK_STRING\<rparr>" by blast
        note f = advanced_fields [OF a]
        from f(3) [OF assms(2)] f(1,2,4,8) t' assms(3) \<open>flag\<close> show ?thesis
          by (simp add: token_ok_def)
      qed
    qed
  qed
qed


lemma tok_next_ok:
  assumes "tok_next t = Inr (flag, t')" "buff t \<le> length (start t)"
  shows "start t' = start t \<and> squash_errors t' = squash_errors t
     \<and> buff t' \<le> length (start t) \<and> (flag \<longrightarrow> token_ok t')"
proof (cases "has_next t")
  case False
  with assms show ?thesis by (simp add: tok_next_def)
next
  case True
  obtain t1 c where w: "advanced t t1" "skip_whitespace t = t1\<lparr>continue_line_after_comment := c\<rparr>"
    using skip_whitespace_advanced [of t] by blast
  define tw where "tw = t1\<lparr>continue_line_after_comment := c\<rparr>"
  note f1 = advanced_fields [OF w(1)]
  have tw: "start tw = start t" "squash_errors tw = squash_errors t" "buff tw \<le> length (start tw)"
    using f1(1,8) f1(3) [OF assms(2)] by (simp_all add: tw_def)
  obtain tc fl where sc: "skip_comments tw = (tc, fl)"
    by (cases "skip_comments tw")
  note scc = skip_comments_cases [OF sc]
  show ?thesis
  proof (cases fl)
    case fl: True
    with scc obtain t2 cs len where a: "advanced tw t2" and cs: "buff tw \<le> cs"
      "buff t2 = cs + len \<or> buff t2 = cs + len + 1 \<and> at (start tw) (cs + len) = NL"
      and tc: "tc = t2\<lparr>last_pos := cs, last_token := slice (start tw) cs len,
                        last_type := TOK_COMMENT\<rparr>"
      by blast
    note f2 = advanced_fields [OF a]
    from True assms(1) w(2) sc fl have "flag" "t' = tc"
      by (simp_all add: tok_next_def tw_def)
    moreover have "token_ok tc"
      using f2(1) f2(3) [OF tw(3)] cs tc
      by (auto simp: token_ok_def)
    ultimately show ?thesis
      using tc f2(1,8) f2(3) [OF tw(3)] tw by simp
  next
    case nfl: False
    with scc have a: "advanced tw tc" by simp
    note f2 = advanced_fields [OF a]
    define t0 where "t0 = tc\<lparr>continue_line_after_comment := False, last_pos := buff tc\<rparr>"
    from True assms(1) w(2) sc nfl have sw: "tok_next_switch t0 = Inr (flag, t')"
      by (simp add: tok_next_def tw_def t0_def)
    have "buff t0 \<le> length (start t0)" "last_pos t0 = buff t0"
      using f2(1) f2(3) [OF tw(3)] by (simp_all add: t0_def)
    from tok_next_switch_ok [OF sw this] f2(1,8) tw show ?thesis
      by (auto simp: t0_def split: if_splits)
  qed
qed

lemma tokenizer_next_tok_next:
  assumes "tokenizer_next t = Inr (r, t')"
  shows "tok_next t = Inr (r \<noteq> None, t')"
proof (cases "tok_next t")
  case (Inl e)
  with assms show ?thesis by (simp add: tokenizer_next_def)
next
  case (Inr p)
  obtain flag t1 where p: "p = (flag, t1)" by (cases p)
  with Inr assms show ?thesis
    by (cases flag) (auto simp: tokenizer_next_def Let_def)
qed

lemma tokenizer_next_token:
  assumes "tokenizer_next t = Inr (Some tok, t')"
  shows "tok_text tok = last_token t'" "tok_type tok = last_type t'"
    "tok_offset tok = last_pos t'"
    "tok_length tok = buff t' - last_pos t'"
    "tok_error tok = (if last_type t' = TOK_ERROR then error t' else TOK_ERROR_NONE)"
proof -
  from tokenizer_next_tok_next [OF assms] have tn: "tok_next t = Inr (True, t')" by simp
  from assms have tok: "tok =
        \<lparr>tok_text = last_token t', tok_type = last_type t',
         tok_error = (if last_type t' = TOK_ERROR then error t' else TOK_ERROR_NONE),
         tok_offset = last_pos t',
         tok_length = (if buff t' \<ge> last_pos t' then buff t' - last_pos t' else 0),
         tok_error_offset =
           (if last_type t' = TOK_ERROR \<and> global_error_offset t' \<ge> last_pos t'
               \<and> global_error_offset t' < buff t'
            then global_error_offset t' - last_pos t' else 0)\<rparr>"
    unfolding tokenizer_next_def tn by (simp add: Let_def)
  show "tok_text tok = last_token t'" by (subst tok) simp
  show "tok_type tok = last_type t'" by (subst tok) simp
  show "tok_offset tok = last_pos t'" by (subst tok) simp
  show "tok_length tok = buff t' - last_pos t'" by (subst tok) simp
  show "tok_error tok = (if last_type t' = TOK_ERROR then error t' else TOK_ERROR_NONE)"
    by (subst tok) simp
qed

lemma tokenizer_next_ok:
  assumes "tokenizer_next t = Inr (r, t')" "buff t \<le> length (start t)"
  shows "start t' = start t" "squash_errors t' = squash_errors t" "buff t' \<le> length (start t)"
    and "r \<noteq> None \<Longrightarrow> token_ok t'"
  using tok_next_ok [OF tokenizer_next_tok_next [OF assms(1)] assms(2)] by simp_all

lemma after_calls_invariant:
  assumes "after_calls t0 t" "buff t0 \<le> length (start t0)"
  shows "start t = start t0 \<and> squash_errors t = squash_errors t0 \<and> buff t \<le> length (start t0)"
  using assms
proof (induction rule: after_calls.induct)
  case (no_call t)
  then show ?case by simp
next
  case (one_more t t1 r t2)
  then have i: "start t1 = start t" "squash_errors t1 = squash_errors t"
    "buff t1 \<le> length (start t1)" by simp_all
  from tokenizer_next_ok(1-3) [OF one_more.hyps(2) i(3)] i show ?case by simp
qed

lemma tokenizer_next_exhausted: "\<not> has_next t \<Longrightarrow> tokenizer_next t = Inr (None, t)"
  by (simp add: tokenizer_next_def tok_next_def)

lemma after_calls_exhausted:
  assumes "after_calls t1 t2" "\<not> has_next t1"
  shows "t2 = t1"
  using assms
proof (induction rule: after_calls.induct)
  case (no_call t)
  then show ?case by simp
next
  case (one_more t t1 r t2)
  then have "t1 = t" by simp
  with one_more.hyps(2) one_more.prems tokenizer_next_exhausted [of t] show ?case by simp
qed

section \<open>No assertion fails: every call returns\<close>


lemma call_error_returns: "e \<noteq> TOK_ERROR_NONE \<Longrightarrow> \<exists>t'. call_error t e w = Inr t'"
  by (cases e) (simp_all add: call_error_def Let_def)

lemma read_string_quote_returns:
  "\<exists>r. read_string_quote t l = Inr r
     \<and> (\<forall>t' l'. r = Broke t' l' \<longrightarrow> mode l' = mode l \<and> paran_count l' = paran_count l)"
proof (cases "quote_end (start t) (buff t)")
  case (Some e)
  then show ?thesis by (simp add: read_string_quote_def)
next
  case None
  define t1 where "t1 = t\<lparr>buff := buff t + wcslen (start t) (buff t)\<rparr>"
  obtain t' where "call_error t1 TOK_UNTERMINATED_QUOTE (buff t) = Inr t'"
    using call_error_returns [of TOK_UNTERMINATED_QUOTE t1 "buff t"] by auto
  with None show ?thesis
    by (simp add: read_string_quote_def Let_def t1_def)
qed

lemma read_string_switch_returns:
  assumes "paran_inv l"
  shows "\<exists>r. read_string_switch t buff_start l = Inr r
     \<and> (\<forall>t' l'. r = Broke t' l' \<longrightarrow> paran_inv l')"
proof (cases "read_string_switch t buff_start l = read_string_quote t l")
  case True
  from read_string_quote_returns [of t l] obtain r where
    r: "read_string_quote t l = Inr r"
      "\<forall>t' l'. r = Broke t' l' \<longrightarrow> mode l' = mode l \<and> paran_count l' = paran_count l"
    by blast
  with assms have "\<forall>t' l'. r = Broke t' l' \<longrightarrow> paran_inv l'"
    by (simp add: paran_inv_def)
  with True r(1) show ?thesis by simp
next
  case False
  with assms show ?thesis
    by (cases "mode l")
      (auto simp: read_string_switch_def Let_def paran_inv_def split: if_splits)
qed

lemma read_string_loop_returns:
  "paran_inv l \<Longrightarrow>
     \<exists>r. read_string_loop t buff_start l = Inr r \<and> (\<forall>t' l'. r = Broke t' l' \<longrightarrow> paran_inv l')"
proof (induction t buff_start l rule: read_string_loop.induct)
  case (1 t buff_start l)
  note inv = "1.prems"
  show ?case
  proof (cases "myal (at (start t) (buff t))")
    case True
    show ?thesis
    proof (cases "do_loop l")
      case False
      with True inv show ?thesis
        by (subst read_string_loop.simps) simp
    next
      case dl: True
      from inv have "paran_inv (l\<lparr>is_first := False\<rparr>)" by (simp add: paran_inv_def)
      from "1.IH"(4) [OF _ _ this] True dl
      have "\<exists>r. read_string_loop (t\<lparr>buff := buff t + 1\<rparr>) buff_start (l\<lparr>is_first := False\<rparr>) = Inr r
          \<and> (\<forall>t' l'. r = Broke t' l' \<longrightarrow> paran_inv l')" by simp
      with True dl show ?thesis
        by (subst read_string_loop.simps) simp
    qed
  next
    case nm: False
    show ?thesis
    proof (cases "at (start t) (buff t) = BACKSLASH")
      case True
      define t1 where "t1 = t\<lparr>buff := buff t + 1\<rparr>"
      show ?thesis
      proof (cases "at (start t) (buff t + 1) = NUL")
        case eof: True
        show ?thesis
        proof (cases "accept_unfinished t")
          case False
          obtain t' where "call_error t1 TOK_UNTERMINATED_ESCAPE (buff t) = Inr t'"
            using call_error_returns [of TOK_UNTERMINATED_ESCAPE t1 "buff t"] by auto
          with nm True eof False show ?thesis
            by (subst read_string_loop.simps) (simp add: Let_def t1_def)
        next
          case au: True
          from inv have "paran_inv (l\<lparr>do_loop := False\<rparr>)" by (simp add: paran_inv_def)
          from "1.IH"(1) [OF nm True refl t1_def _ _ refl refl this] eof au
          have "\<exists>r. read_string_loop t1 buff_start (l\<lparr>do_loop := False\<rparr>) = Inr r
              \<and> (\<forall>t' l'. r = Broke t' l' \<longrightarrow> paran_inv l')"
            by (simp add: t1_def)
          with nm True eof au show ?thesis
            by (subst read_string_loop.simps) (simp add: Let_def t1_def)
        qed
      next
        case ne: False
        from "1.IH"(2) [OF nm True refl t1_def _ inv] ne
        have "\<exists>r. read_string_loop (t1\<lparr>buff := buff t1 + 1\<rparr>) buff_start l = Inr r
            \<and> (\<forall>t' l'. r = Broke t' l' \<longrightarrow> paran_inv l')"
          by (simp add: t1_def)
        with nm True ne show ?thesis
          by (subst read_string_loop.simps) (simp add: Let_def t1_def)
      qed
    next
      case nb: False
      from read_string_switch_returns [OF inv, of t buff_start] obtain b where
        sw: "read_string_switch t buff_start l = Inr b"
          "\<forall>t' l'. b = Broke t' l' \<longrightarrow> paran_inv l'" by blast
      show ?thesis
      proof (cases b)
        case (Returned t')
        with nm nb sw show ?thesis
          by (subst read_string_loop.simps) simp
      next
        case (Broke t' l')
        with sw(2) have inv': "paran_inv l'" by simp
        show ?thesis
        proof (cases "do_loop l'")
          case False
          with nm nb sw Broke inv' show ?thesis
            by (subst read_string_loop.simps) simp
        next
          case dl: True
          from inv' have "paran_inv (l'\<lparr>is_first := False\<rparr>)" by (simp add: paran_inv_def)
          from "1.IH"(3) [OF nm nb sw(1) Broke _ this] dl
          have "\<exists>r. read_string_loop (t'\<lparr>buff := buff t' + 1\<rparr>) buff_start (l'\<lparr>is_first := False\<rparr>)
                = Inr r \<and> (\<forall>t' l'. r = Broke t' l' \<longrightarrow> paran_inv l')"
            by simp
          with nm nb sw Broke dl show ?thesis
            by (subst read_string_loop.simps) simp
        qed
      qed
    qed
  qed
qed

lemma read_string_finish_returns:
  assumes "paran_inv l"
  shows "\<exists>t'. read_string_finish t buff_start l = Inr t'"
  using assms call_error_returns [of TOK_UNTERMINATED_SUBSHELL t]
    call_error_returns [of TOK_UNTERMINATED_SLICE t "offset_of_bracket l"]
  by (cases "mode l") (auto simp: read_string_finish_def Let_def paran_inv_def)

lemma read_string_returns: "\<exists>t'. read_string t = Inr t'"
proof -
  have "paran_inv read_string_locals_init"
    by (simp add: paran_inv_def read_string_locals_init_def)
  from read_string_loop_returns [OF this, of t "buff t"] obtain r where
    r: "read_string_loop t (buff t) read_string_locals_init = Inr r"
      "\<forall>t' l'. r = Broke t' l' \<longrightarrow> paran_inv l'" by blast
  show ?thesis
  proof (cases r)
    case (Returned t')
    with r(1) show ?thesis by (simp add: read_string_def read_string_from_def)
  next
    case (Broke t' l')
    with r(2) have "paran_inv l'" by simp
    from read_string_finish_returns [OF this, of t' "buff t"] Broke r(1) show ?thesis
      by (simp add: read_string_def read_string_from_def)
  qed
qed

lemma returning_returns: "\<exists>t'. r = Inr t' \<Longrightarrow> \<exists>flag t'. returning r = Inr (flag, t')"
  by (auto simp: returning_def)

lemma tok_next_switch_returns: "\<exists>flag t'. tok_next_switch t = Inr (flag, t')"
proof -
  have a: "\<exists>flag t'. returning (call_error t TOK_INVALID_REDIRECT (buff t)) = Inr (flag, t')"
    by (intro returning_returns call_error_returns) simp
  have b: "\<exists>flag t'. returning (call_error t TOK_INVALID_PIPE (buff t)) = Inr (flag, t')"
    by (intro returning_returns call_error_returns) simp
  have c: "\<exists>flag t'. returning (read_string t) = Inr (flag, t')"
    by (intro returning_returns read_string_returns)
  show ?thesis
    unfolding tok_next_switch_def Let_def
    using a b c by (auto split: prod.splits)
qed

lemma tok_next_returns: "\<exists>flag t'. tok_next t = Inr (flag, t')"
  unfolding tok_next_def
  using tok_next_switch_returns by (auto split: prod.splits bool.splits)

lemma tokenizer_next_returns: "\<exists>r t'. tokenizer_next t = Inr (r, t')"
proof -
  from tok_next_returns [of t] obtain flag t' where "tok_next t = Inr (flag, t')" by blast
  then show ?thesis
    by (cases flag) (simp_all add: tokenizer_next_def Let_def)
qed

section \<open>Tokens and their place in the source\<close>




lemma tokenizer_init_fields:
  "start (tokenizer_init s flags) = s" "buff (tokenizer_init s flags) = 0"
  "squash_errors (tokenizer_init s flags) = (TOK_SQUASH_ERRORS \<in> set flags)"
  by (simp_all add: tokenizer_init_def)




text \<open>
  C2: once a call of \<open>next\<close> has delivered a \<open>TOK_ERROR\<close> token, \<open>has_next\<close> is false,
  and it stays false: after any number of further calls the tokenizer is unchanged and
  \<open>next\<close> returns false.
\<close>

theorem no_token_after_error:
  assumes "after_calls (tokenizer_init s flags) t"
    and "tokenizer_next t = Inr (Some tok, t1)" and "tok_type tok = TOK_ERROR"
    and "after_calls t1 t2"
  shows "\<not> has_next t1 \<and> \<not> has_next t2 \<and> tokenizer_next t2 = Inr (None, t2)"
proof -
  have "buff (tokenizer_init s flags) \<le> length (start (tokenizer_init s flags))"
    by (simp add: tokenizer_init_fields)
  from after_calls_invariant [OF assms(1) this]
  have "buff t \<le> length (start t)" by (simp add: tokenizer_init_fields)
  from tokenizer_next_ok(4) [OF assms(2) this] have "token_ok t1" by simp
  moreover from tokenizer_next_token(2) [OF assms(2)] assms(3) have "last_type t1 = TOK_ERROR"
    by simp
  ultimately have h: "\<not> has_next t1" by (simp add: token_ok_def)
  from after_calls_exhausted [OF assms(4) h] have "t2 = t1" .
  with h tokenizer_next_exhausted [OF h] show ?thesis by simp
qed

theorem no_token_after_error_witness:
  "after_calls (tokenizer_init ''0>|rest'' []) (tokenizer_init ''0>|rest'' [])
   \<and> (\<exists>tok t1. tokenizer_next (tokenizer_init ''0>|rest'' []) = Inr (Some tok, t1)
         \<and> tok_type tok = TOK_ERROR \<and> after_calls t1 t1
         \<and> \<not> has_next t1 \<and> tokenizer_next t1 = Inr (None, t1))"
proof -
  obtain tok t1 where n: "tokenizer_next (tokenizer_init ''0>|rest'' []) = Inr (Some tok, t1)"
    "tok_type tok = TOK_ERROR"
    by (simp add: tok_eval)
  from no_token_after_error [OF after_calls.no_call n after_calls.no_call] n after_calls.no_call
  show ?thesis by blast
qed

text \<open>
  C4 as stated: \<open>tok_first s\<close> is the text of the first \<open>TOK_STRING\<close> token among the
  tokens of \<open>s\<close>. On \<^verbatim>\<open>;a\<close> the tokens are a \<open>TOK_END\<close> and then the \<open>TOK_STRING\<close> token
  \<^verbatim>\<open>a\<close>, and \<open>tok_first\<close> returns the empty string.
\<close>

theorem tok_first_reads_one_token:
  "tok_first '';a'' = Inr []
   \<and> next_tokens 3 (tokenizer_init '';a'' [TOK_SQUASH_ERRORS]) =
       Inr [\<lparr>tok_text = '';'', tok_type = TOK_END, tok_error = TOK_ERROR_NONE,
              tok_offset = 0, tok_length = 1, tok_error_offset = 0\<rparr>,
            \<lparr>tok_text = ''a'', tok_type = TOK_STRING, tok_error = TOK_ERROR_NONE,
              tok_offset = 1, tok_length = 1, tok_error_offset = 0\<rparr>]"
  by (simp add: tok_eval)

text \<open>
  C4, amended: \<open>tok_first s\<close> returns, and looks at the first token only. When the first token of \<open>s\<close>
  (tokenized with errors squashed) is a \<open>TOK_STRING\<close>, the result is its text, which is
  the source substring from its offset over its length; when the first token is of another
  kind, or there is no token, the result is the empty string.
\<close>

theorem tok_first_is_first_token:
  "\<exists>r. tok_first s = Inr r \<and>
     (case next_tokens 1 (tokenizer_init s [TOK_SQUASH_ERRORS]) of
        Inl e \<Rightarrow> False
      | Inr [] \<Rightarrow> r = []
      | Inr (tok # toks) \<Rightarrow>
          r = (if tok_type tok = TOK_STRING then slice s (tok_offset tok) (tok_length tok)
               else []))"
proof -
  obtain r t' where n: "tokenizer_next (tokenizer_init s [TOK_SQUASH_ERRORS]) = Inr (r, t')"
    using tokenizer_next_returns by blast
  show ?thesis
  proof (cases r)
    case None
    with n show ?thesis by (simp add: tok_first_def)
  next
    case (Some tok)
    have "buff (tokenizer_init s [TOK_SQUASH_ERRORS])
        \<le> length (start (tokenizer_init s [TOK_SQUASH_ERRORS]))"
      by (simp add: tokenizer_init_fields)
    from tokenizer_next_ok(1,4) [OF n this] Some have ok: "token_ok t'" "start t' = s"
      by (simp_all add: tokenizer_init_fields)
    from n Some have n': "tokenizer_next (tokenizer_init s [TOK_SQUASH_ERRORS]) = Inr (Some tok, t')"
      by simp
    note k = tokenizer_next_token [OF n']
    from ok k have "tok_text tok = slice s (tok_offset tok) (tok_length tok)"
      if "tok_type tok = TOK_STRING"
      using that by (simp add: token_ok_def)
    with n' show ?thesis by (simp add: tok_first_def)
  qed
qed

theorem tok_first_is_first_token_witness:
  "tok_first ''echo hi'' = Inr ''echo'' \<and> tok_first ''>x y'' = Inr []
   \<and> next_tokens 1 (tokenizer_init ''echo hi'' [TOK_SQUASH_ERRORS]) =
       Inr [\<lparr>tok_text = ''echo'', tok_type = TOK_STRING, tok_error = TOK_ERROR_NONE,
              tok_offset = 0, tok_length = 4, tok_error_offset = 0\<rparr>]"
  using tok_first_is_first_token [of "''echo hi''"] tok_first_is_first_token [of "''>x y''"]
  by (simp add: tok_eval)

end
